theory Spec2Isabelle
  imports Main "HOL-Library.Word" "HOL-Library.Sublist" "HOL-Library.AList"
begin

section \<open>The TCP chat server (tcp/chat/server/02-tcp-chat-server.go)\<close>

text \<open>
  The server keeps three pieces of shared state: the registry \<open>newClients\<close> (a
  \<open>sync.Map\<close> keyed by \<open>*Client\<close>), the counter \<open>clientCounter\<close> (an \<open>int32\<close>
  changed by \<open>atomic.AddInt32\<close>) and the console. Every connection is served by one
  \<open>handleClient\<close> goroutine and one \<open>writePump\<close> goroutine. The embedding is
  sequential: each function of the source is a function on an explicit server state,
  and an unrecovered panic is a value. Go strings are byte strings, so \<open>string\<close>
  (a list of 8-bit characters) holds them exactly; the Chinese texts of the source
  are written as their UTF-8 bytes.
\<close>

subsection \<open>Strings: the texts of the source, \<open>%d\<close>, \<open>strings.TrimSpace\<close>\<close>

definition newline :: char where
  "newline = CHR 0x0A"

text \<open>\<open>" \<dots> "\<close> of the join line on the console (between the name and the address).\<close>

definition join_log_mid :: string where
  "join_log_mid = [CHR 0x20, CHR 0xE5, CHR 0x8A, CHR 0xA0, CHR 0xE5, CHR 0x85, CHR 0xA5,
     CHR 0xE8, CHR 0x81, CHR 0x8A, CHR 0xE5, CHR 0xA4, CHR 0xA9, CHR 0xE5, CHR 0xAE, CHR 0xA4,
     CHR 0xEF, CHR 0xBC, CHR 0x8C, CHR 0xE6, CHR 0x9D, CHR 0xA5, CHR 0xE8, CHR 0x87, CHR 0xAA,
     CHR 0x20]"

definition leave_log_tail :: string where
  "leave_log_tail = [CHR 0x20, CHR 0xE7, CHR 0xA6, CHR 0xBB, CHR 0xE5, CHR 0xBC, CHR 0x80,
     CHR 0xE8, CHR 0x81, CHR 0x8A, CHR 0xE5, CHR 0xA4, CHR 0xA9, CHR 0xE5, CHR 0xAE, CHR 0xA4]"

definition welcome_head :: string where
  "welcome_head = [CHR 0xE6, CHR 0xAC, CHR 0xA2, CHR 0xE8, CHR 0xBF, CHR 0x8E, CHR 0xE6,
     CHR 0x9D, CHR 0xA5, CHR 0xE5, CHR 0x88, CHR 0xB0, CHR 0xE8, CHR 0x81, CHR 0x8A, CHR 0xE5,
     CHR 0xA4, CHR 0xA9, CHR 0xE5, CHR 0xAE, CHR 0xA4, CHR 0xEF, CHR 0xBC, CHR 0x81, CHR 0xE4,
     CHR 0xBD, CHR 0xA0, CHR 0xE7, CHR 0x9A, CHR 0x84, CHR 0xE5, CHR 0x90, CHR 0x8D, CHR 0xE5,
     CHR 0xAD, CHR 0x97, CHR 0xE6, CHR 0x98, CHR 0xAF, CHR 0xEF, CHR 0xBC, CHR 0x9A]"

definition online_head :: string where
  "online_head = [CHR 0xE5, CHR 0xBD, CHR 0x93, CHR 0xE5, CHR 0x89, CHR 0x8D, CHR 0xE5,
     CHR 0x9C, CHR 0xA8, CHR 0xE7, CHR 0xBA, CHR 0xBF, CHR 0xE4, CHR 0xBA, CHR 0xBA, CHR 0xE6,
     CHR 0x95, CHR 0xB0, CHR 0xEF, CHR 0xBC, CHR 0x9A]"

definition system_head :: string where
  "system_head = [CHR 0xE7, CHR 0xB3, CHR 0xBB, CHR 0xE7, CHR 0xBB, CHR 0x9F, CHR 0xE6,
     CHR 0xB6, CHR 0x88, CHR 0xE6, CHR 0x81, CHR 0xAF, CHR 0xEF, CHR 0xBC, CHR 0x9A]"

definition joined_tail :: string where
  "joined_tail = [CHR 0x20, CHR 0xE5, CHR 0x8A, CHR 0xA0, CHR 0xE5, CHR 0x85, CHR 0xA5,
     CHR 0xE4, CHR 0xBA, CHR 0x86, CHR 0xE8, CHR 0x81, CHR 0x8A, CHR 0xE5, CHR 0xA4, CHR 0xA9,
     CHR 0xE5, CHR 0xAE, CHR 0xA4]"

definition left_tail :: string where
  "left_tail = [CHR 0x20, CHR 0xE7, CHR 0xA6, CHR 0xBB, CHR 0xE5, CHR 0xBC, CHR 0x80,
     CHR 0xE4, CHR 0xBA, CHR 0x86, CHR 0xE8, CHR 0x81, CHR 0x8A, CHR 0xE5, CHR 0xA4, CHR 0xA9,
     CHR 0xE5, CHR 0xAE, CHR 0xA4]"

text \<open>The verb \<open>%d\<close> of \<open>fmt\<close> on an \<open>int32\<close>: decimal digits, a minus sign first
  when the value is negative.\<close>

fun decimal :: "nat \<Rightarrow> string" where
  "decimal n = (if n < 10 then [''0123456789'' ! n]
                else decimal (n div 10) @ [''0123456789'' ! (n mod 10)])"

declare decimal.simps [simp del]

definition fmt_d :: "32 word \<Rightarrow> string" where
  "fmt_d v = (if sint v < 0 then CHR ''-'' # decimal (nat (- sint v)) else decimal (nat (sint v)))"

text \<open>
  \<open>strings.TrimSpace\<close> removes, from both ends, every Unicode white space character:
  the six ASCII ones and U+0085, U+00A0, U+1680, U+2000 to U+200A, U+2028, U+2029,
  U+202F, U+205F and U+3000. On the bytes of a string these are the encodings below;
  an encoding that is cut or invalid decodes to U+FFFD, which is not white space, so
  trimming stops there.
\<close>

definition space_runes :: "string list" where
  "space_runes =
    [[CHR 0x09], [CHR 0x0A], [CHR 0x0B], [CHR 0x0C], [CHR 0x0D], [CHR 0x20],
     [CHR 0xC2, CHR 0x85], [CHR 0xC2, CHR 0xA0], [CHR 0xE1, CHR 0x9A, CHR 0x80],
     [CHR 0xE2, CHR 0x80, CHR 0x80], [CHR 0xE2, CHR 0x80, CHR 0x81],
     [CHR 0xE2, CHR 0x80, CHR 0x82], [CHR 0xE2, CHR 0x80, CHR 0x83],
     [CHR 0xE2, CHR 0x80, CHR 0x84], [CHR 0xE2, CHR 0x80, CHR 0x85],
     [CHR 0xE2, CHR 0x80, CHR 0x86], [CHR 0xE2, CHR 0x80, CHR 0x87],
     [CHR 0xE2, CHR 0x80, CHR 0x88], [CHR 0xE2, CHR 0x80, CHR 0x89],
     [CHR 0xE2, CHR 0x80, CHR 0x8A], [CHR 0xE2, CHR 0x80, CHR 0xA8],
     [CHR 0xE2, CHR 0x80, CHR 0xA9], [CHR 0xE2, CHR 0x80, CHR 0xAF],
     [CHR 0xE2, CHR 0x81, CHR 0x9F], [CHR 0xE3, CHR 0x80, CHR 0x80]]"

text \<open>The number of bytes of the white space character a string starts with
  (0 when it starts with none), the runes being given.\<close>

definition space_width :: "string list \<Rightarrow> string \<Rightarrow> nat" where
  "space_width runes s =
     (case find (\<lambda>w. take (length w) s = w) runes of None \<Rightarrow> 0 | Some w \<Rightarrow> length w)"

lemma space_width_le: "space_width runes s \<le> length s"
proof (cases "find (\<lambda>w. take (length w) s = w) runes")
  case None
  then show ?thesis by (simp add: space_width_def)
next
  case (Some w)
  then have "take (length w) s = w" by (auto simp: find_Some_iff)
  then have "length w \<le> length s"
    by (metis length_take min.cobounded1)
  with Some show ?thesis by (simp add: space_width_def)
qed

function trim_left :: "string list \<Rightarrow> string \<Rightarrow> string" where
  "trim_left runes s =
     (if space_width runes s = 0 then s else trim_left runes (drop (space_width runes s) s))"
  by pat_completeness auto
termination
proof (relation "measure (\<lambda>(runes, s). length s)")
  show "wf (measure (\<lambda>(runes, s). length s))" by simp
next
  fix runes :: "string list" and s :: string
  assume "space_width runes s \<noteq> 0"
  moreover have "space_width runes s \<le> length s" by (rule space_width_le)
  ultimately show "((runes, drop (space_width runes s) s), (runes, s))
      \<in> measure (\<lambda>(runes, s). length s)"
    by simp
qed

declare trim_left.simps [simp del]

definition TrimSpace :: "string \<Rightarrow> string" where
  "TrimSpace s = rev (trim_left (map rev space_runes) (rev (trim_left space_runes s)))"

subsection \<open>Channels: \<open>chan string\<close>\<close>

text \<open>
  A buffered channel is its queue of pending values, its capacity and whether it has
  been closed. A send appends at the back and a receive takes the front. The three
  outcomes of \<open>select { case ch <- m: \<dots> default: \<dots> }\<close> are: the send proceeds (there
  is room), the \<open>default\<close> branch runs (the buffer is full), and the panic of Go for a
  send on a closed channel.
\<close>

record Chan =
  buf :: "string list"
  cap :: nat
  closed :: bool

definition make_chan :: "nat \<Rightarrow> Chan" where
  "make_chan n = \<lparr>buf = [], cap = n, closed = False\<rparr>"

text \<open>The panics: a send on a closed channel, the close of a closed channel, and the
  use of an address that is not allocated (which a Go pointer never is; the heap of the
  model is partial).\<close>

datatype panic = SendOnClosedChannel | CloseOfClosedChannel | InvalidPointer

datatype select_result = Sent Chan | Default | SendPanics

definition select_send :: "Chan \<Rightarrow> string \<Rightarrow> select_result" where
  "select_send ch m =
     (if closed ch then SendPanics
      else if length (buf ch) < cap ch then Sent (ch\<lparr>buf := buf ch @ [m]\<rparr>)
      else Default)"

definition close_chan :: "Chan \<Rightarrow> panic + Chan" where
  "close_chan ch = (if closed ch then Inl CloseOfClosedChannel else Inr (ch\<lparr>closed := True\<rparr>))"

text \<open>What \<open>for msg := range ch\<close> does next: it takes the front value, it ends (the
  channel is closed and empty), or it waits (the channel is open and empty).\<close>

datatype recv_result = Received string Chan | Drained | Waits

definition range_recv :: "Chan \<Rightarrow> recv_result" where
  "range_recv ch =
     (case buf ch of
        m # ms \<Rightarrow> Received m (ch\<lparr>buf := ms\<rparr>)
      | [] \<Rightarrow> if closed ch then Drained else Waits)"

subsection \<open>Connections, \<open>bufio.Reader\<close> and \<open>bufio.Writer\<close>\<close>

text \<open>
  A connection (\<open>net.Conn\<close>) has a read half and a write half. The read half is what
  the peer still has to deliver: \<open>incoming\<close> lists the data of the successive
  \<open>Read\<close> calls that succeed, and \<open>ending\<close> is the error \<open>Read\<close> returns after them
  (\<open>EOF\<close> when the peer closed, a network error otherwise). The write half is the
  byte stream \<open>sent\<close> written to the peer so far, the flag \<open>broken\<close> (writes fail) and the
  flag \<open>conn_closed\<close> set by \<open>Close\<close>; a \<open>Write\<close> appends all its bytes or fails. Only \<open>handleClient\<close> reads a connection, so the
  read half is threaded through it; the write half is kept in the \<open>Client\<close>, where
  \<open>writePump\<close> finds it.
\<close>

datatype io_error = EOF | NetError

record Conn =
  remote :: string
  incoming :: "string list"
  ending :: io_error
  sent :: string
  broken :: bool
  conn_closed :: bool

definition RemoteAddr :: "Conn \<Rightarrow> string" where
  "RemoteAddr c = remote c"

definition conn_Write :: "Conn \<Rightarrow> string \<Rightarrow> Conn option" where
  "conn_Write c p = (if broken c \<or> conn_closed c then None else Some (c\<lparr>sent := sent c @ p\<rparr>))"

definition conn_Close :: "Conn \<Rightarrow> Conn" where
  "conn_Close c = c\<lparr>conn_closed := True\<rparr>"

text \<open>
  A \<open>bufio.Reader\<close> holds the bytes it has read from the connection and not yet
  handed out. \<open>ReadString delim\<close> fills the buffer, one \<open>Read\<close> after the other, until
  the delimiter is there, and returns the bytes up to and including it; when \<open>Read\<close>
  fails first it returns what it has, with the error. What is left in the buffer
  belongs to this reader only.
\<close>

record Reader =
  rbuf :: string

definition NewReader :: Reader where
  "NewReader = \<lparr>rbuf = []\<rparr>"

fun fill :: "char \<Rightarrow> string \<Rightarrow> string list \<Rightarrow> string \<times> string list" where
  "fill delim b [] = (b, [])"
| "fill delim b (c # cs) = (if delim \<in> set b then (b, c # cs) else fill delim (b @ c) cs)"

definition ReadString ::
  "Reader \<Rightarrow> char \<Rightarrow> Conn \<Rightarrow> (string \<times> io_error option) \<times> Reader \<times> Conn" where
  "ReadString r delim c =
     (case fill delim (rbuf r) (incoming c) of (b, rest) \<Rightarrow>
        if delim \<in> set b
        then ((takeWhile (\<lambda>x. x \<noteq> delim) b @ [delim], None),
              r\<lparr>rbuf := tl (dropWhile (\<lambda>x. x \<noteq> delim) b)\<rparr>, c\<lparr>incoming := rest\<rparr>)
        else ((b, Some (ending c)), r\<lparr>rbuf := []\<rparr>, c\<lparr>incoming := rest\<rparr>))"

text \<open>
  A \<open>bufio.Writer\<close> holds the bytes not yet written and the first error of a write,
  which it keeps: once it is set, \<open>WriteString\<close> and \<open>Flush\<close> do nothing and return
  it. Both return whether they failed.
\<close>

record Writer =
  wbuf :: string
  werr :: bool

definition NewWriter :: Writer where
  "NewWriter = \<lparr>wbuf = [], werr = False\<rparr>"

definition WriteString :: "Writer \<Rightarrow> string \<Rightarrow> bool \<times> Writer" where
  "WriteString w m = (if werr w then (True, w) else (False, w\<lparr>wbuf := wbuf w @ m\<rparr>))"

definition Flush :: "Writer \<Rightarrow> Conn \<Rightarrow> bool \<times> Writer \<times> Conn" where
  "Flush w c =
     (if werr w then (True, w, c)
      else if wbuf w = [] then (False, w, c)
      else case conn_Write c (wbuf w) of
             None \<Rightarrow> (True, w\<lparr>werr := True\<rparr>, c)
           | Some c' \<Rightarrow> (False, w\<lparr>wbuf := []\<rparr>, c'))"

subsection \<open>The client and the server state\<close>

text \<open>A \<open>*Client\<close> is an address; the heap maps the addresses that are allocated to
  their \<open>Client\<close>. The nil pointer is \<open>None\<close> of \<open>cid option\<close>.\<close>

type_synonym cid = nat

record Client =
  conn :: Conn
  name :: string
  writer :: Writer
  msgChan :: Chan

text \<open>
  \<open>newClients\<close> is the \<open>sync.Map\<close>: its entries, with keys that are distinct; the
  order of the list is the order in which \<open>Range\<close> visits them, which Go leaves
  open, so nothing below depends on it. \<open>clock\<close> is what \<open>getCurrentTime\<close> reads and
  \<open>console\<close> is what \<open>fmt.Printf\<close> has printed, one entry for each call.
\<close>

record Server =
  newClients :: "(cid \<times> bool) list"
  clientCounter :: "32 word"
  heap :: "cid \<Rightarrow> Client option"
  next_addr :: cid
  console :: "string list"
  clock :: string

definition Store :: "cid \<Rightarrow> bool \<Rightarrow> Server \<Rightarrow> Server" where
  "Store k v s = s\<lparr>newClients := AList.update k v (newClients s)\<rparr>"

definition Delete :: "cid \<Rightarrow> Server \<Rightarrow> Server" where
  "Delete k s = s\<lparr>newClients := AList.delete k (newClients s)\<rparr>"

text \<open>\<open>Range f\<close> calls \<open>f\<close> on each entry and stops when \<open>f\<close> returns false; a panic
  of \<open>f\<close> ends it.\<close>

fun Range ::
  "(cid \<Rightarrow> bool \<Rightarrow> Server \<Rightarrow> panic + (bool \<times> Server)) \<Rightarrow> (cid \<times> bool) list \<Rightarrow> Server
     \<Rightarrow> panic + Server" where
  "Range f [] s = Inr s"
| "Range f ((k, v) # m) s =
     (case f k v s of
        Inl e \<Rightarrow> Inl e
      | Inr (continue, s') \<Rightarrow> if continue then Range f m s' else Inr s')"

definition atomic_AddInt32 :: "32 word \<Rightarrow> Server \<Rightarrow> Server" where
  "atomic_AddInt32 delta s = s\<lparr>clientCounter := clientCounter s + delta\<rparr>"

definition Printf :: "string \<Rightarrow> Server \<Rightarrow> Server" where
  "Printf line s = s\<lparr>console := console s @ [line]\<rparr>"

definition getCurrentTime :: "Server \<Rightarrow> string" where
  "getCurrentTime s = clock s"

definition new_Client :: "Client \<Rightarrow> Server \<Rightarrow> cid \<times> Server" where
  "new_Client cl s =
     (next_addr s, s\<lparr>heap := (heap s)(next_addr s \<mapsto> cl), next_addr := Suc (next_addr s)\<rparr>)"

definition and_then :: "panic + 'a \<Rightarrow> ('a \<Rightarrow> panic + 'b) \<Rightarrow> panic + 'b" where
  "and_then r f = (case r of Inl e \<Rightarrow> Inl e | Inr x \<Rightarrow> f x)"

subsection \<open>\<open>sendMessage\<close> and \<open>broadcast\<close>\<close>

text \<open>
  \<^verbatim>\<open>
  func (c *Client) sendMessage(message string) {
      select {
      case c.msgChan <- message:
      default:
      }
  }
  \<close>
\<close>

definition sendMessage :: "cid \<Rightarrow> string \<Rightarrow> Server \<Rightarrow> panic + Server" where
  "sendMessage c message s =
     (case heap s c of
        None \<Rightarrow> Inl InvalidPointer
      | Some cl \<Rightarrow>
          (case select_send (msgChan cl) message of
             Sent ch \<Rightarrow> Inr (s\<lparr>heap := (heap s)(c \<mapsto> cl\<lparr>msgChan := ch\<rparr>)\<rparr>)
           | Default \<Rightarrow> Inr s
           | SendPanics \<Rightarrow> Inl SendOnClosedChannel))"

text \<open>
  \<^verbatim>\<open>
  func broadcast(message string, exclude *Client) {
      newClients.Range(func(key, value any) bool {
          client := key.(*Client)
          if client == exclude {
              return true
          }
          select {
          case client.msgChan <- message:
          default:
              fmt.Printf("client %s channel full, skip\n", client.name)
          }
          return true
      })
  }
  \<close>
\<close>

definition full_log :: "string \<Rightarrow> string" where
  "full_log n = ''client '' @ n @ '' channel full, skip'' @ [newline]"

definition broadcast_visit ::
  "string \<Rightarrow> cid option \<Rightarrow> cid \<Rightarrow> bool \<Rightarrow> Server \<Rightarrow> panic + (bool \<times> Server)" where
  "broadcast_visit message exclude client value s =
     (if Some client = exclude then Inr (True, s)
      else case heap s client of
        None \<Rightarrow> Inl InvalidPointer
      | Some cl \<Rightarrow>
          (case select_send (msgChan cl) message of
             Sent ch \<Rightarrow> Inr (True, s\<lparr>heap := (heap s)(client \<mapsto> cl\<lparr>msgChan := ch\<rparr>)\<rparr>)
           | Default \<Rightarrow> Inr (True, Printf (full_log (name cl)) s)
           | SendPanics \<Rightarrow> Inl SendOnClosedChannel))"

definition broadcast :: "string \<Rightarrow> cid option \<Rightarrow> Server \<Rightarrow> panic + Server" where
  "broadcast message exclude s = Range (broadcast_visit message exclude) (newClients s) s"

subsection \<open>\<open>writePump\<close>\<close>

text \<open>
  \<^verbatim>\<open>
  func (c *Client) writePump() {
      defer c.conn.Close()
      for msg := range c.msgChan {
          c.writer.WriteString(msg)
          c.writer.Flush()
      }
  }
  \<close>
  The results of \<open>WriteString\<close> and \<open>Flush\<close> are dropped. One turn of the loop either
  handles a message and goes on (\<open>Running\<close>), or leaves the loop, runs the deferred
  \<open>Close\<close> and returns (\<open>Returned\<close>), or waits for the next message (\<open>Blocked\<close>).
  \<open>writePump\<close> runs the turns as far as the present content of the channel goes.
\<close>

definition writePump_body :: "string \<Rightarrow> Client \<Rightarrow> Client" where
  "writePump_body msg cl =
     (case WriteString (writer cl) msg of (_, w) \<Rightarrow>
        case Flush w (conn cl) of (_, w', c') \<Rightarrow> cl\<lparr>conn := c', writer := w'\<rparr>)"

datatype pump = Running Client | Returned Client | Blocked Client

definition writePump_step :: "Client \<Rightarrow> pump" where
  "writePump_step cl =
     (case range_recv (msgChan cl) of
        Received msg ch \<Rightarrow> Running (writePump_body msg (cl\<lparr>msgChan := ch\<rparr>))
      | Drained \<Rightarrow> Returned (cl\<lparr>conn := conn_Close (conn cl)\<rparr>)
      | Waits \<Rightarrow> Blocked cl)"

lemma writePump_step_Running:
  "writePump_step cl = Running cl' \<Longrightarrow> length (buf (msgChan cl')) < length (buf (msgChan cl))"
  by (auto simp: writePump_step_def range_recv_def writePump_body_def
      split: list.splits if_splits prod.splits)

function writePump :: "Client \<Rightarrow> pump" where
  "writePump cl =
     (case writePump_step cl of
        Running cl' \<Rightarrow> writePump cl'
      | Returned cl' \<Rightarrow> Returned cl'
      | Blocked cl' \<Rightarrow> Blocked cl')"
  by pat_completeness auto
termination
  by (relation "measure (\<lambda>cl. length (buf (msgChan cl)))") (auto dest: writePump_step_Running)

declare writePump.simps [simp del]

subsection \<open>\<open>handleClient\<close>\<close>

text \<open>
  \<open>handleClient\<close> has three parts. Lines 89 to 120 read the name and set the client
  up; after them the deferred function is armed. Lines 140 to 160 are the loop that
  reads the messages, with a \<open>bufio.Reader\<close> of its own. Lines 123 to 137 are the
  deferred function, which runs when the loop returns. A panic that is not recovered
  ends the whole server process, so it is the result \<open>Inl\<close> and leaves no state.
  \<^verbatim>\<open>
      reader := bufio.NewReader(conn)
      name, _ := reader.ReadString('\n')
      atomic.AddInt32(&clientCounter, 1)
      client := &Client{conn: conn, name: strings.TrimSpace(name),
          writer: bufio.NewWriter(conn), msgChan: make(chan string, 100)}
      go client.writePump()
      fmt.Printf("[%s] %s ... %s\n", getCurrentTime(), client.name, conn.RemoteAddr())
      client.sendMessage(fmt.Sprintf("...%s\n", client.name))
      client.sendMessage(fmt.Sprintf("...%d\n", clientCounter))
      newClients.Store(client, true)
      broadcast(fmt.Sprintf("...%s ...\n", client.name), client)
      broadcast(fmt.Sprintf("...%d\n", clientCounter), client)
  \<close>
\<close>

definition welcome_msg :: "string \<Rightarrow> string" where
  "welcome_msg n = welcome_head @ n @ [newline]"

definition online_msg :: "32 word \<Rightarrow> string" where
  "online_msg k = online_head @ fmt_d k @ [newline]"

definition joined_msg :: "string \<Rightarrow> string" where
  "joined_msg n = system_head @ n @ joined_tail @ [newline]"

definition left_msg :: "string \<Rightarrow> string" where
  "left_msg n = system_head @ n @ left_tail @ [newline]"

definition chat_msg :: "string \<Rightarrow> string \<Rightarrow> string" where
  "chat_msg n message = n @ '': '' @ message @ [newline]"

definition handleClient_setup :: "Conn \<Rightarrow> Server \<Rightarrow> panic + (cid \<times> Conn \<times> Server)" where
  "handleClient_setup conn0 s =
     (case ReadString NewReader newline conn0 of ((name0, _), reader, conn1) \<Rightarrow>
        let s1 = atomic_AddInt32 1 s;
            nm = TrimSpace name0
        in case new_Client \<lparr>conn = conn1, name = nm, writer = NewWriter,
                   msgChan = make_chan 100\<rparr> s1 of (client, s2) \<Rightarrow>
        let s3 = Printf (''['' @ getCurrentTime s2 @ ''] '' @ nm @ join_log_mid
                   @ RemoteAddr conn1 @ [newline]) s2
        in and_then (sendMessage client (welcome_msg nm) s3) (\<lambda>s4.
           and_then (sendMessage client (online_msg (clientCounter s4)) s4) (\<lambda>s5.
           let s6 = Store client True s5
           in and_then (broadcast (joined_msg nm) (Some client) s6) (\<lambda>s7.
              and_then (broadcast (online_msg (clientCounter s7)) (Some client) s7) (\<lambda>s8.
              Inr (client, conn1, s8))))))"

text \<open>
  \<^verbatim>\<open>
      reader = bufio.NewReader(conn)
      for {
          message, err := reader.ReadString('\n')
          if err != nil {
              return
          }
          message = strings.TrimSpace(message)
          if message == "" {
              continue
          }
          fmt.Printf("[%s] %s: %s\n", getCurrentTime(), client.name, message)
          broadcast(fmt.Sprintf("%s: %s\n", client.name, message), client)
      }
  \<close>
  \<open>handleClient_message\<close> is the body of the loop after a read that succeeded.
\<close>

definition handleClient_message :: "cid \<Rightarrow> string \<Rightarrow> Server \<Rightarrow> panic + Server" where
  "handleClient_message client message0 s =
     (let message = TrimSpace message0
      in if message = [] then Inr s
         else case heap s client of
           None \<Rightarrow> Inl InvalidPointer
         | Some cl \<Rightarrow>
             broadcast (chat_msg (name cl) message) (Some client)
               (Printf (''['' @ getCurrentTime s @ ''] '' @ name cl @ '': '' @ message
                  @ [newline]) s))"

definition unread :: "Reader \<Rightarrow> Conn \<Rightarrow> nat" where
  "unread r c = length (rbuf r) + sum_list (map length (incoming c)) + length (incoming c)"

lemma fill_size:
  "fill d b cs = (b', rest) \<Longrightarrow>
     length b' + sum_list (map length rest) + length rest
       \<le> length b + sum_list (map length cs) + length cs"
proof (induction cs arbitrary: b)
  case Nil
  then show ?case by auto
next
  case (Cons c cs)
  show ?case
  proof (cases "d \<in> set b")
    case True
    with Cons.prems show ?thesis by auto
  next
    case False
    with Cons.prems have "fill d (b @ c) cs = (b', rest)" by simp
    from Cons.IH [OF this] show ?thesis by simp
  qed
qed

lemma after_delim_shorter:
  "d \<in> set b \<Longrightarrow> length (tl (dropWhile (\<lambda>x. x \<noteq> d) b)) < length b"
proof -
  assume "d \<in> set b"
  then have "dropWhile (\<lambda>x. x \<noteq> d) b \<noteq> []" by (simp add: dropWhile_eq_Nil_conv)
  then have "length (tl (dropWhile (\<lambda>x. x \<noteq> d) b)) < length (dropWhile (\<lambda>x. x \<noteq> d) b)"
    by (cases "dropWhile (\<lambda>x. x \<noteq> d) b") auto
  also have "\<dots> \<le> length b" by (rule length_dropWhile_le)
  finally show ?thesis .
qed

lemma ReadString_unread:
  assumes "ReadString r d c = ((m, None), r', c')"
  shows "unread r' c' < unread r c"
proof -
  obtain b rest where f: "fill d (rbuf r) (incoming c) = (b, rest)"
    by (cases "fill d (rbuf r) (incoming c)")
  from assms f have d: "d \<in> set b"
    by (auto simp: ReadString_def split: if_splits)
  from assms f d have r': "rbuf r' = tl (dropWhile (\<lambda>x. x \<noteq> d) b)" and c': "incoming c' = rest"
    by (auto simp: ReadString_def)
  from after_delim_shorter [OF d] fill_size [OF f] show ?thesis
    by (simp add: unread_def r' c')
qed

function handleClient_loop :: "cid \<Rightarrow> Reader \<Rightarrow> Conn \<Rightarrow> Server \<Rightarrow> panic + Server" where
  "handleClient_loop client reader c s =
     (case ReadString reader newline c of
        ((message, Some err), reader', c') \<Rightarrow> Inr s
      | ((message, None), reader', c') \<Rightarrow>
          (case handleClient_message client message s of
             Inl e \<Rightarrow> Inl e
           | Inr s' \<Rightarrow> handleClient_loop client reader' c' s'))"
  by pat_completeness auto
termination
  by (relation "measure (\<lambda>(client, reader, c, s). unread reader c)")
    (auto dest: ReadString_unread [OF sym])

declare handleClient_loop.simps [simp del]

text \<open>
  \<^verbatim>\<open>
      defer func() {
          atomic.AddInt32(&clientCounter, -1)
          newClients.Delete(client)
          close(client.msgChan)
          fmt.Printf("[%s] %s ...\n", getCurrentTime(), client.name)
          broadcast(fmt.Sprintf("...%s ...\n", client.name), nil)
          broadcast(fmt.Sprintf("...%d\n", clientCounter), nil)
      }()
  \<close>
\<close>

definition handleClient_deferred :: "cid \<Rightarrow> Server \<Rightarrow> panic + Server" where
  "handleClient_deferred client s =
     (let s1 = atomic_AddInt32 (- 1) s;
          s2 = Delete client s1
      in case heap s2 client of
        None \<Rightarrow> Inl InvalidPointer
      | Some cl \<Rightarrow>
          (case close_chan (msgChan cl) of
             Inl e \<Rightarrow> Inl e
           | Inr ch \<Rightarrow>
               let s3 = s2\<lparr>heap := (heap s2)(client \<mapsto> cl\<lparr>msgChan := ch\<rparr>)\<rparr>;
                   s4 = Printf (''['' @ getCurrentTime s3 @ ''] '' @ name cl @ leave_log_tail
                          @ [newline]) s3
               in and_then (broadcast (left_msg (name cl)) None s4) (\<lambda>s5.
                  broadcast (online_msg (clientCounter s5)) None s5)))"

definition handleClient :: "Conn \<Rightarrow> Server \<Rightarrow> panic + Server" where
  "handleClient conn0 s =
     and_then (handleClient_setup conn0 s) (\<lambda>(client, conn1, s1).
       and_then (handleClient_loop client NewReader conn1 s1) (handleClient_deferred client))"

section \<open>What a broadcast does\<close>

text \<open>
  \<open>attempt m\<close> is what one run of the \<open>select\<close> statement does to a client whose
  channel is open: the message is appended when there is room, and nothing changes
  otherwise. \<open>registry_ok\<close> holds in every state the handlers reach: the keys of the
  registry are distinct (it is a map) and every registered client is allocated with
  an open channel (the deferred function deletes the client before it closes the
  channel). \<open>after_broadcast m ks s\<close> is the state in which every client of \<open>ks\<close> has
  had one attempt and one line was printed for every one of them that was full.
\<close>

definition attempt :: "string \<Rightarrow> Client \<Rightarrow> Client" where
  "attempt m cl =
     (case select_send (msgChan cl) m of
        Sent ch \<Rightarrow> cl\<lparr>msgChan := ch\<rparr>
      | Default \<Rightarrow> cl
      | SendPanics \<Rightarrow> cl)"

definition is_open :: "Server \<Rightarrow> cid \<Rightarrow> bool" where
  "is_open s k = (case heap s k of None \<Rightarrow> False | Some cl \<Rightarrow> \<not> closed (msgChan cl))"

definition is_full :: "Server \<Rightarrow> cid \<Rightarrow> bool" where
  "is_full s k =
     (case heap s k of None \<Rightarrow> False | Some cl \<Rightarrow> cap (msgChan cl) \<le> length (buf (msgChan cl)))"

definition name_of :: "Server \<Rightarrow> cid \<Rightarrow> string" where
  "name_of s k = (case heap s k of None \<Rightarrow> [] | Some cl \<Rightarrow> name cl)"

definition targets :: "cid option \<Rightarrow> (cid \<times> bool) list \<Rightarrow> cid list" where
  "targets exclude m = filter (\<lambda>k. Some k \<noteq> exclude) (map fst m)"

definition after_broadcast :: "string \<Rightarrow> cid list \<Rightarrow> Server \<Rightarrow> Server" where
  "after_broadcast message ks s =
     s\<lparr>heap := (\<lambda>c. if c \<in> set ks then map_option (attempt message) (heap s c) else heap s c),
       console := console s @ map (\<lambda>k. full_log (name_of s k)) (filter (is_full s) ks)\<rparr>"

definition registry_ok :: "Server \<Rightarrow> bool" where
  "registry_ok s \<longleftrightarrow>
     distinct (map fst (newClients s)) \<and> list_all (is_open s) (map fst (newClients s))"

lemma after_broadcast_Nil [simp]: "after_broadcast message [] s = s"
  by (simp add: after_broadcast_def)

lemma visit_excluded:
  "broadcast_visit message (Some k) k v s = Inr (True, s)"
  by (simp add: broadcast_visit_def)

lemma visit_target:
  assumes "Some k \<noteq> exclude" and "is_open s k"
  shows "broadcast_visit message exclude k v s = Inr (True, after_broadcast message [k] s)"
proof -
  from assms(2) obtain cl where cl: "heap s k = Some cl" and op: "\<not> closed (msgChan cl)"
    by (auto simp: is_open_def split: option.splits)
  show ?thesis
  proof (cases "length (buf (msgChan cl)) < cap (msgChan cl)")
    case True
    have "(heap s)(k \<mapsto> cl\<lparr>msgChan := msgChan cl\<lparr>buf := buf (msgChan cl) @ [message]\<rparr>\<rparr>)
        = (\<lambda>c. if c \<in> set [k] then map_option (attempt message) (heap s c) else heap s c)"
      using cl op True by (auto simp: attempt_def select_send_def fun_eq_iff)
    with True cl op assms(1) show ?thesis
      by (simp add: broadcast_visit_def select_send_def after_broadcast_def is_full_def)
  next
    case False
    have "heap s = (\<lambda>c. if c \<in> set [k] then map_option (attempt message) (heap s c) else heap s c)"
      using cl op False by (auto simp: attempt_def select_send_def fun_eq_iff)
    with False cl op assms(1) show ?thesis
      by (simp add: broadcast_visit_def select_send_def after_broadcast_def is_full_def
          Printf_def name_of_def)
  qed
qed

lemma after_broadcast_fields [simp]:
  "newClients (after_broadcast message ks s) = newClients s"
  "clientCounter (after_broadcast message ks s) = clientCounter s"
  "next_addr (after_broadcast message ks s) = next_addr s"
  "clock (after_broadcast message ks s) = clock s"
  by (simp_all add: after_broadcast_def)

lemma after_broadcast_other:
  "k \<notin> set ks \<Longrightarrow> heap (after_broadcast message ks s) k = heap s k"
  by (simp add: after_broadcast_def)

lemma attempt_keeps [simp]:
  "closed (msgChan (attempt m cl)) = closed (msgChan cl)"
  "name (attempt m cl) = name cl"
  "cap (msgChan (attempt m cl)) = cap (msgChan cl)"
  "conn (attempt m cl) = conn cl"
  "writer (attempt m cl) = writer cl"
  by (simp_all add: attempt_def select_send_def)

lemma is_open_after_broadcast [simp]:
  "is_open (after_broadcast message ks s) = is_open s"
proof
  fix k
  show "is_open (after_broadcast message ks s) k = is_open s k"
    by (cases "heap s k") (simp_all add: is_open_def after_broadcast_def)
qed

lemma name_of_after_broadcast [simp]:
  "name_of (after_broadcast message ks s) = name_of s"
proof
  fix k
  show "name_of (after_broadcast message ks s) k = name_of s k"
    by (cases "heap s k") (simp_all add: name_of_def after_broadcast_def)
qed

lemma after_broadcast_Cons:
  assumes "k \<notin> set ks"
  shows "after_broadcast message ks (after_broadcast message [k] s)
       = after_broadcast message (k # ks) s"
proof -
  have h: "(\<lambda>c. if c \<in> set ks
              then map_option (attempt message) (heap (after_broadcast message [k] s) c)
              else heap (after_broadcast message [k] s) c)
         = (\<lambda>c. if c \<in> set (k # ks) then map_option (attempt message) (heap s c) else heap s c)"
    using assms by (auto simp: fun_eq_iff after_broadcast_def)
  have f: "filter (is_full (after_broadcast message [k] s)) ks = filter (is_full s) ks"
    using assms by (intro filter_cong) (auto simp: is_full_def after_broadcast_def)
  show ?thesis
    unfolding after_broadcast_def [of message ks] h
    by (simp add: f) (simp add: after_broadcast_def)
qed

lemma Range_broadcast:
  assumes "distinct (map fst m)" and "list_all (is_open s) (map fst m)"
  shows "Range (broadcast_visit message exclude) m s
       = Inr (after_broadcast message (targets exclude m) s)"
  using assms
proof (induction m arbitrary: s)
  case Nil
  then show ?case by (simp add: targets_def)
next
  case (Cons e m)
  obtain k v where e: "e = (k, v)" by (cases e)
  from Cons.prems e have d: "distinct (map fst m)" and k: "k \<notin> fst ` set m"
    and o: "is_open s k" and os: "list_all (is_open s) (map fst m)"
    by auto
  show ?case
  proof (cases "Some k = exclude")
    case True
    then have "targets exclude ((k, v) # m) = targets exclude m"
      by (simp add: targets_def)
    with True Cons.IH [OF d os] show ?thesis
      using visit_excluded by (auto simp: e)
  next
    case False
    have t: "targets exclude ((k, v) # m) = k # targets exclude m"
      using False by (simp add: targets_def)
    have kt: "k \<notin> set (targets exclude m)"
      using k by (auto simp: targets_def)
    have os': "list_all (is_open (after_broadcast message [k] s)) (map fst m)"
      using os by simp
    from Cons.IH [OF d os'] visit_target [OF False o] show ?thesis
      by (simp add: e t after_broadcast_Cons [OF kt])
  qed
qed

lemma broadcast_ok:
  "registry_ok s \<Longrightarrow>
     broadcast message exclude s = Inr (after_broadcast message (targets exclude (newClients s)) s)"
  by (simp add: broadcast_def registry_ok_def Range_broadcast)

lemma registry_ok_after_broadcast [simp]:
  "registry_ok (after_broadcast message ks s) = registry_ok s"
  by (simp add: registry_ok_def)

section \<open>What \<open>handleClient\<close> does\<close>

text \<open>
  In a state in which \<open>registry_ok\<close> holds no part of \<open>handleClient\<close> panics, and the
  state each part ends in is written out: \<open>joined\<close> after lines 89 to 120, \<open>said\<close>
  after a line that is not blank, \<open>left\<close> after the deferred function.
\<close>

definition keys :: "Server \<Rightarrow> cid set" where
  "keys s = fst ` set (newClients s)"

lemma set_targets: "set (targets exclude m) = {k \<in> fst ` set m. Some k \<noteq> exclude}"
  by (auto simp: targets_def)

lemma and_then_Inr [simp]: "and_then (Inr x) f = f x"
  by (simp add: and_then_def)

lemma and_then_Inl [simp]: "and_then (Inl e) f = Inl e"
  by (simp add: and_then_def)

text \<open>The state after lines 89 to 116: the client is allocated, greeted and stored.\<close>

definition fresh_client :: "Conn \<Rightarrow> string \<Rightarrow> 32 word \<Rightarrow> Client" where
  "fresh_client c n k = \<lparr>conn = c, name = n, writer = NewWriter,
     msgChan = \<lparr>buf = [welcome_msg n, online_msg k], cap = 100, closed = False\<rparr>\<rparr>"

definition stored :: "Conn \<Rightarrow> string \<Rightarrow> Server \<Rightarrow> Server" where
  "stored c n s =
     s\<lparr>newClients := AList.update (next_addr s) True (newClients s),
       clientCounter := clientCounter s + 1,
       heap := (heap s)(next_addr s \<mapsto> fresh_client c n (clientCounter s + 1)),
       next_addr := Suc (next_addr s),
       console := console s @ [''['' @ clock s @ ''] '' @ n @ join_log_mid @ remote c @ [newline]]\<rparr>"

lemma registry_ok_stored:
  assumes "registry_ok s"
  shows "registry_ok (stored c n s)"
proof -
  have "is_open (stored c n s) k" if "k \<in> set (map fst (newClients s)) \<or> k = next_addr s" for k
    using that assms
    by (auto simp: is_open_def stored_def fresh_client_def registry_ok_def list_all_iff)
  then show ?thesis
    using assms
    by (auto simp: registry_ok_def list_all_iff stored_def distinct_update dom_update)
qed

lemma setup_eq:
  assumes "ReadString NewReader newline conn0 = ((name0, err), reader, conn1)"
  shows "handleClient_setup conn0 s =
     and_then (broadcast (joined_msg (TrimSpace name0)) (Some (next_addr s))
                (stored conn1 (TrimSpace name0) s)) (\<lambda>s7.
     and_then (broadcast (online_msg (clientCounter s7)) (Some (next_addr s)) s7) (\<lambda>s8.
       Inr (next_addr s, conn1, s8)))"
  by (cases s)
    (simp add: handleClient_setup_def assms atomic_AddInt32_def new_Client_def Printf_def
      getCurrentTime_def RemoteAddr_def sendMessage_def select_send_def make_chan_def
      fresh_client_def Let_def Store_def stored_def)


lemma registered_open:
  "registry_ok s \<Longrightarrow> k \<in> keys s \<Longrightarrow> \<exists>cl. heap s k = Some cl \<and> \<not> closed (msgChan cl)"
  by (auto simp: registry_ok_def keys_def list_all_iff is_open_def split: option.splits)

definition others :: "cid \<Rightarrow> Server \<Rightarrow> cid list" where
  "others c s = targets (Some c) (newClients s)"

definition everyone :: "Server \<Rightarrow> cid list" where
  "everyone s = targets None (newClients s)"

lemma set_others: "set (others c s) = keys s - {c}"
  by (auto simp: others_def set_targets keys_def)

lemma set_everyone: "set (everyone s) = keys s"
  by (auto simp: everyone_def set_targets keys_def)

lemma keys_after_broadcast [simp]: "keys (after_broadcast m ks s) = keys s"
  by (simp add: keys_def)

lemma others_after_broadcast [simp]: "others c (after_broadcast m ks s) = others c s"
  by (simp add: others_def)

lemma everyone_after_broadcast [simp]: "everyone (after_broadcast m ks s) = everyone s"
  by (simp add: everyone_def)

definition joined :: "Conn \<Rightarrow> string \<Rightarrow> Server \<Rightarrow> Server" where
  "joined c n s =
     after_broadcast (online_msg (clientCounter s + 1)) (others (next_addr s) (stored c n s))
       (after_broadcast (joined_msg n) (others (next_addr s) (stored c n s)) (stored c n s))"

lemma setup_ok:
  assumes "registry_ok s" and "ReadString NewReader newline conn0 = ((name0, err), reader, conn1)"
  shows "handleClient_setup conn0 s = Inr (next_addr s, conn1, joined conn1 (TrimSpace name0) s)"
proof -
  let ?st = "stored conn1 (TrimSpace name0) s"
  have ok: "registry_ok ?st" by (rule registry_ok_stored [OF assms(1)])
  have c: "clientCounter ?st = clientCounter s + 1" by (simp add: stored_def)
  show ?thesis
    by (simp add: setup_eq [OF assms(2)] broadcast_ok ok c joined_def others_def)
qed

lemma registry_ok_joined: "registry_ok s \<Longrightarrow> registry_ok (joined c n s)"
  by (simp add: joined_def registry_ok_stored)

lemma joined_fields:
  "newClients (joined c n s) = AList.update (next_addr s) True (newClients s)"
  "clientCounter (joined c n s) = clientCounter s + 1"
  "next_addr (joined c n s) = Suc (next_addr s)"
  by (simp_all add: joined_def stored_def)

text \<open>The state after a line that is not blank: it is printed and sent to the others.\<close>

definition said :: "cid \<Rightarrow> string \<Rightarrow> string \<Rightarrow> Server \<Rightarrow> Server" where
  "said c n message s =
     after_broadcast (chat_msg n message) (others c s)
       (s\<lparr>console := console s @ [''['' @ clock s @ ''] '' @ n @ '': '' @ message @ [newline]]\<rparr>)"

lemma is_open_console [simp]: "is_open (s\<lparr>console := x\<rparr>) = is_open s"
  by (rule ext) (simp add: is_open_def)

lemma registry_ok_console [simp]: "registry_ok (s\<lparr>console := x\<rparr>) = registry_ok s"
  by (simp add: registry_ok_def)

lemma message_ok:
  assumes "registry_ok s" and "heap s c = Some cl" and "TrimSpace message0 \<noteq> []"
  shows "handleClient_message c message0 s = Inr (said c (name cl) (TrimSpace message0) s)"
  using assms
  by (simp add: handleClient_message_def Let_def broadcast_ok Printf_def getCurrentTime_def
      said_def others_def)

lemma said_fields [simp]:
  "newClients (said c n m s) = newClients s"
  "clientCounter (said c n m s) = clientCounter s"
  "next_addr (said c n m s) = next_addr s"
  "registry_ok (said c n m s) = registry_ok s"
  "keys (said c n m s) = keys s"
  by (simp_all add: said_def keys_def)

lemma heap_said:
  "heap (said c n m s) k =
     (if k \<in> keys s \<and> k \<noteq> c then map_option (attempt (chat_msg n m)) (heap s k) else heap s k)"
  by (auto simp: said_def after_broadcast_def set_others keys_def)

text \<open>The state after the first four lines of the deferred function.\<close>

definition departed :: "cid \<Rightarrow> Client \<Rightarrow> Server \<Rightarrow> Server" where
  "departed c cl s =
     s\<lparr>newClients := AList.delete c (newClients s),
       clientCounter := clientCounter s - 1,
       heap := (heap s)(c \<mapsto> cl\<lparr>msgChan := (msgChan cl)\<lparr>closed := True\<rparr>\<rparr>),
       console := console s @ [''['' @ clock s @ ''] '' @ name cl @ leave_log_tail @ [newline]]\<rparr>"

definition left :: "cid \<Rightarrow> Client \<Rightarrow> Server \<Rightarrow> Server" where
  "left c cl s =
     after_broadcast (online_msg (clientCounter s - 1)) (everyone (departed c cl s))
       (after_broadcast (left_msg (name cl)) (everyone (departed c cl s)) (departed c cl s))"

lemma registry_ok_departed:
  assumes "registry_ok s"
  shows "registry_ok (departed c cl s)"
proof -
  have "is_open (departed c cl s) k" if "k \<in> set (map fst (AList.delete c (newClients s)))" for k
  proof -
    from that have "k \<noteq> c" and "k \<in> set (map fst (newClients s))"
      by (auto simp: delete_keys)
    with assms show ?thesis
      by (auto simp: registry_ok_def list_all_iff is_open_def departed_def)
  qed
  with assms show ?thesis
    by (auto simp: registry_ok_def list_all_iff departed_def distinct_delete)
qed

lemma deferred_eq:
  assumes "heap s c = Some cl" and "\<not> closed (msgChan cl)"
  shows "handleClient_deferred c s =
     and_then (broadcast (left_msg (name cl)) None (departed c cl s)) (\<lambda>s5.
       broadcast (online_msg (clientCounter s5)) None s5)"
  using assms
  by (cases s)
    (simp add: handleClient_deferred_def Let_def atomic_AddInt32_def Delete_def close_chan_def
      Printf_def getCurrentTime_def departed_def)

lemma deferred_ok:
  assumes "registry_ok s" and "heap s c = Some cl" and "\<not> closed (msgChan cl)"
  shows "handleClient_deferred c s = Inr (left c cl s)"
proof -
  have ok: "registry_ok (departed c cl s)" by (rule registry_ok_departed [OF assms(1)])
  have k: "clientCounter (departed c cl s) = clientCounter s - 1" by (simp add: departed_def)
  show ?thesis
    by (simp add: deferred_eq [OF assms(2,3)] broadcast_ok ok k left_def everyone_def)
qed

lemma left_fields:
  "newClients (left c cl s) = AList.delete c (newClients s)"
  "clientCounter (left c cl s) = clientCounter s - 1"
  "next_addr (left c cl s) = next_addr s"
  by (simp_all add: left_def departed_def)

lemma registry_ok_left: "registry_ok s \<Longrightarrow> registry_ok (left c cl s)"
  by (simp add: left_def registry_ok_departed)


lemma loop_ok:
  assumes "registry_ok s" and "heap s client = Some cl"
  shows "\<exists>s'. handleClient_loop client reader c s = Inr s' \<and> registry_ok s'
      \<and> newClients s' = newClients s \<and> clientCounter s' = clientCounter s
      \<and> next_addr s' = next_addr s \<and> heap s' client = Some cl"
  using assms
proof (induction client reader c s rule: handleClient_loop.induct)
  case (1 client reader c s)
  obtain message err reader' c' where r: "ReadString reader newline c = ((message, err), reader', c')"
    by (metis surj_pair)
  show ?case
  proof (cases err)
    case (Some e)
    with r "1.prems" show ?thesis
      by (subst handleClient_loop.simps) simp
  next
    case None
    show ?thesis
    proof (cases "TrimSpace message = []")
      case True
      then have m: "handleClient_message client message s = Inr s"
        by (simp add: handleClient_message_def)
      have l: "handleClient_loop client reader c s = handleClient_loop client reader' c' s"
        by (subst handleClient_loop.simps) (simp add: r None m)
      from "1.IH" [OF r [symmetric] refl None refl m "1.prems"] l show ?thesis
        by simp
    next
      case False
      let ?s1 = "said client (name cl) (TrimSpace message) s"
      have m: "handleClient_message client message s = Inr ?s1"
        by (rule message_ok [OF "1.prems" False])
      have l: "handleClient_loop client reader c s = handleClient_loop client reader' c' ?s1"
        by (subst handleClient_loop.simps) (simp add: r None m)
      have ok: "registry_ok ?s1" using "1.prems"(1) by simp
      have h: "heap ?s1 client = Some cl" using "1.prems"(2) by (simp add: heap_said)
      from "1.IH" [OF r [symmetric] refl None refl m ok h] l show ?thesis
        by simp
    qed
  qed
qed

lemma keys_delete: "fst ` set (AList.delete c m) = fst ` set m - {c}"
proof -
  have "fst ` set (AList.delete c m) = set (map fst (AList.delete c m))" by simp
  also have "\<dots> = set (map fst m) - {c}" by (simp only: delete_keys set_removeAll)
  finally show ?thesis by simp
qed

lemma heap_left:
  "heap (left c cl s) k =
     (if k = c then Some (cl\<lparr>msgChan := (msgChan cl)\<lparr>closed := True\<rparr>\<rparr>)
      else if k \<in> keys s
      then map_option (attempt (online_msg (clientCounter s - 1)) \<circ> attempt (left_msg (name cl)))
             (heap s k)
      else heap s k)"
proof -
  have e: "set (everyone (departed c cl s)) = keys s - {c}"
    by (simp add: set_everyone keys_def departed_def keys_delete)
  show ?thesis
    by (auto simp: left_def after_broadcast_def e option.map_comp) (simp_all add: departed_def)
qed

lemma heap_joined_self:
  "heap (joined c n s) (next_addr s) = Some (fresh_client c n (clientCounter s + 1))"
  by (simp add: joined_def after_broadcast_def set_others) (simp add: stored_def)

lemma handleClient_ok:
  assumes "registry_ok s" and "ReadString NewReader newline conn0 = ((name0, err), reader, conn1)"
  shows "\<exists>s1. handleClient_loop (next_addr s) NewReader conn1 (joined conn1 (TrimSpace name0) s) = Inr s1
      \<and> handleClient conn0 s
          = Inr (left (next_addr s)
                  (fresh_client conn1 (TrimSpace name0) (clientCounter s + 1)) s1)"
proof -
  let ?j = "joined conn1 (TrimSpace name0) s"
  let ?cl = "fresh_client conn1 (TrimSpace name0) (clientCounter s + 1)"
  have ok: "registry_ok ?j" by (rule registry_ok_joined [OF assms(1)])
  have h: "heap ?j (next_addr s) = Some ?cl" by (rule heap_joined_self)
  from loop_ok [OF ok h, of NewReader conn1] obtain s1 where
    l: "handleClient_loop (next_addr s) NewReader conn1 ?j = Inr s1" and ok1: "registry_ok s1"
    and h1: "heap s1 (next_addr s) = Some ?cl"
    by blast
  have "\<not> closed (msgChan ?cl)" by (simp add: fresh_client_def)
  from deferred_ok [OF ok1 h1 this] l setup_ok [OF assms] show ?thesis
    by (simp add: handleClient_def)
qed

section \<open>One queue and its writer\<close>

text \<open>
  What happens to one client's queue is a sequence of two kinds of events: \<open>Enq m\<close>,
  a run of the \<open>select\<close> statement of \<open>broadcast\<close> or \<open>sendMessage\<close> with the message
  \<open>m\<close>, and \<open>Turn\<close>, one turn of the loop of \<open>writePump\<close>. \<open>enqueued\<close> lists the
  messages of the \<open>Enq\<close> events in their order. A writer is idle between two turns: its
  buffer is empty, or it holds the error of a write that failed.
\<close>

datatype queue_event = Enq string | Turn

fun queue_step :: "queue_event \<Rightarrow> Client \<Rightarrow> panic + Client" where
  "queue_step (Enq m) cl =
     (case select_send (msgChan cl) m of
        Sent ch \<Rightarrow> Inr (cl\<lparr>msgChan := ch\<rparr>)
      | Default \<Rightarrow> Inr cl
      | SendPanics \<Rightarrow> Inl SendOnClosedChannel)"
| "queue_step Turn cl =
     (case writePump_step cl of
        Running cl' \<Rightarrow> Inr cl'
      | Returned cl' \<Rightarrow> Inr cl'
      | Blocked cl' \<Rightarrow> Inr cl')"

fun queue_run :: "queue_event list \<Rightarrow> Client \<Rightarrow> panic + Client" where
  "queue_run [] cl = Inr cl"
| "queue_run (e # es) cl = and_then (queue_step e cl) (queue_run es)"

fun enqueued :: "queue_event list \<Rightarrow> string list" where
  "enqueued [] = []"
| "enqueued (Enq m # es) = m # enqueued es"
| "enqueued (Turn # es) = enqueued es"

definition healthy :: "Client \<Rightarrow> bool" where
  "healthy cl \<longleftrightarrow> \<not> broken (conn cl) \<and> \<not> conn_closed (conn cl) \<and> \<not> werr (writer cl)"

definition writer_idle :: "Client \<Rightarrow> bool" where
  "writer_idle cl \<longleftrightarrow> wbuf (writer cl) = [] \<or> werr (writer cl)"

lemma enqueue_step:
  assumes "\<not> closed (msgChan cl)"
  shows "\<exists>cl1. queue_step (Enq m) cl = Inr cl1
      \<and> conn cl1 = conn cl \<and> writer cl1 = writer cl
      \<and> closed (msgChan cl1) = closed (msgChan cl) \<and> cap (msgChan cl1) = cap (msgChan cl)
      \<and> (buf (msgChan cl1) = buf (msgChan cl) @ [m] \<or> buf (msgChan cl1) = buf (msgChan cl))
      \<and> (length (buf (msgChan cl)) < cap (msgChan cl)
            \<longrightarrow> buf (msgChan cl1) = buf (msgChan cl) @ [m])"
  using assms by (simp add: select_send_def)

lemma writer_step_idle:
  assumes "buf (msgChan cl) = []" and "\<not> closed (msgChan cl)"
  shows "queue_step Turn cl = Inr cl"
  using assms by (simp add: writePump_step_def range_recv_def)

lemma writer_step_message:
  assumes "buf (msgChan cl) = m # ms" and "writer_idle cl"
  shows "\<exists>cl1. queue_step Turn cl = Inr cl1
      \<and> buf (msgChan cl1) = ms
      \<and> closed (msgChan cl1) = closed (msgChan cl) \<and> cap (msgChan cl1) = cap (msgChan cl)
      \<and> writer_idle cl1
      \<and> (sent (conn cl1) = sent (conn cl) @ m \<or> sent (conn cl1) = sent (conn cl))
      \<and> (healthy cl \<longrightarrow> healthy cl1 \<and> sent (conn cl1) = sent (conn cl) @ m)"
  using assms
  by (auto simp: writePump_step_def range_recv_def writePump_body_def WriteString_def Flush_def
      conn_Write_def writer_idle_def healthy_def)

section \<open>What \<open>writePump\<close> does\<close>

lemma writePump_body_fields [simp]:
  "msgChan (writePump_body msg cl) = msgChan cl"
  "name (writePump_body msg cl) = name cl"
  "conn_closed (conn (writePump_body msg cl)) = conn_closed (conn cl)"
  "broken (conn (writePump_body msg cl)) = broken (conn cl)"
  by (auto simp: writePump_body_def WriteString_def Flush_def conn_Write_def
      split: prod.splits if_splits option.splits)

lemma writePump_body_failed:
  "werr (writer cl) \<or> ((broken (conn cl) \<or> conn_closed (conn cl)) \<and> wbuf (writer cl) @ msg \<noteq> [])
   \<Longrightarrow> werr (writer (writePump_body msg cl)) \<and> sent (conn (writePump_body msg cl)) = sent (conn cl)"
  by (auto simp: writePump_body_def WriteString_def Flush_def conn_Write_def
      split: prod.splits if_splits option.splits)

lemma writePump_drains:
  "\<exists>cl'. writePump cl = (if closed (msgChan cl) then Returned cl' else Blocked cl')
      \<and> buf (msgChan cl') = []
      \<and> conn_closed (conn cl') = (closed (msgChan cl) \<or> conn_closed (conn cl))
      \<and> (werr (writer cl) \<longrightarrow> werr (writer cl') \<and> sent (conn cl') = sent (conn cl))"
proof (induction cl rule: writePump.induct)
  case (1 cl)
  show ?case
  proof (cases "buf (msgChan cl)")
    case Nil
    then show ?thesis
      by (subst writePump.simps)
        (auto simp: writePump_step_def range_recv_def conn_Close_def)
  next
    case (Cons m ms)
    define cl1 where "cl1 = writePump_body m (cl\<lparr>msgChan := (msgChan cl)\<lparr>buf := ms\<rparr>\<rparr>)"
    have st: "writePump_step cl = Running cl1"
      using Cons by (simp add: writePump_step_def range_recv_def cl1_def)
    have w: "writePump cl = writePump cl1"
      by (subst writePump.simps) (simp add: st)
    have k: "closed (msgChan cl1) = closed (msgChan cl)"
      "conn_closed (conn cl1) = conn_closed (conn cl)"
      by (simp_all add: cl1_def)
    have e: "werr (writer cl) \<Longrightarrow> werr (writer cl1) \<and> sent (conn cl1) = sent (conn cl)"
      using writePump_body_failed [of "cl\<lparr>msgChan := (msgChan cl)\<lparr>buf := ms\<rparr>\<rparr>" m]
      by (simp add: cl1_def)
    from "1.IH" [OF st] obtain cl' where
      "writePump cl1 = (if closed (msgChan cl1) then Returned cl' else Blocked cl')"
      "buf (msgChan cl') = []"
      "conn_closed (conn cl') = (closed (msgChan cl1) \<or> conn_closed (conn cl1))"
      "werr (writer cl1) \<longrightarrow> werr (writer cl') \<and> sent (conn cl') = sent (conn cl1)"
      by blast
    with w k e show ?thesis by auto
  qed
qed

section \<open>The server as a sequence of events\<close>

text \<open>
  The goroutines of the server interleave. Here the parts of \<open>handleClient\<close> and the
  turns of \<open>writePump\<close> are the steps of the interleaving, each run as a whole:
  \<open>Connect conn\<close> is lines 89 to 120 for a new connection, \<open>Says c m\<close> is the body of
  the loop of the handler of client \<open>c\<close> for a line \<open>m\<close> that it read, \<open>Disconnect c\<close> is
  its deferred function, and \<open>Pump c\<close> is one turn of the writer of \<open>c\<close>. A handler is
  in its loop from the end of its \<open>Connect\<close> to its \<open>Disconnect\<close>, which is while its
  client is a key of the registry; a writer exists once its client is allocated.
  \<open>feasible es s\<close> says that every event of \<open>es\<close> is enabled when it happens.
  \<open>connects\<close> counts the increments of the counter (line 91) and \<open>disconnects\<close> its
  decrements (line 128). \<open>counted\<close> holds in every state reached from the start of
  the server: the counter is the size of the registry, as an \<open>int32\<close>.
\<close>

datatype event = Connect Conn | Says cid string | Disconnect cid | Pump cid

fun server_step :: "event \<Rightarrow> Server \<Rightarrow> panic + Server" where
  "server_step (Connect conn0) s =
     and_then (handleClient_setup conn0 s) (\<lambda>(client, conn1, s'). Inr s')"
| "server_step (Says client message) s = handleClient_message client message s"
| "server_step (Disconnect client) s = handleClient_deferred client s"
| "server_step (Pump client) s =
     (case heap s client of
        None \<Rightarrow> Inl InvalidPointer
      | Some cl \<Rightarrow>
          (case writePump_step cl of
             Running cl' \<Rightarrow> Inr (s\<lparr>heap := (heap s)(client \<mapsto> cl')\<rparr>)
           | Returned cl' \<Rightarrow> Inr (s\<lparr>heap := (heap s)(client \<mapsto> cl')\<rparr>)
           | Blocked cl' \<Rightarrow> Inr (s\<lparr>heap := (heap s)(client \<mapsto> cl')\<rparr>)))"

fun enabled :: "event \<Rightarrow> Server \<Rightarrow> bool" where
  "enabled (Connect conn0) s = True"
| "enabled (Says client message) s = (client \<in> keys s)"
| "enabled (Disconnect client) s = (client \<in> keys s)"
| "enabled (Pump client) s = (heap s client \<noteq> None)"

fun server_run :: "event list \<Rightarrow> Server \<Rightarrow> panic + Server" where
  "server_run [] s = Inr s"
| "server_run (e # es) s = and_then (server_step e s) (server_run es)"

fun feasible :: "event list \<Rightarrow> Server \<Rightarrow> bool" where
  "feasible [] s = True"
| "feasible (e # es) s =
     (enabled e s \<and> (case server_step e s of Inl p \<Rightarrow> True | Inr s' \<Rightarrow> feasible es s'))"

fun connects :: "event list \<Rightarrow> nat" where
  "connects [] = 0"
| "connects (Connect conn0 # es) = Suc (connects es)"
| "connects (e # es) = connects es"

fun disconnects :: "event list \<Rightarrow> nat" where
  "disconnects [] = 0"
| "disconnects (Disconnect client # es) = Suc (disconnects es)"
| "disconnects (e # es) = disconnects es"

text \<open>
  Run alone, \<open>handleClient\<close> is the sequence of its own events: its \<open>Connect\<close>, one
  \<open>Says\<close> for each line its loop reads, and its \<open>Disconnect\<close>. \<open>lines_read\<close> lists
  the lines that the successive \<open>ReadString\<close> calls of the loop return before the
  first error.
\<close>

function lines_read :: "Reader \<Rightarrow> Conn \<Rightarrow> string list" where
  "lines_read reader c =
     (case ReadString reader newline c of
        ((message, Some err), reader', c') \<Rightarrow> []
      | ((message, None), reader', c') \<Rightarrow> message # lines_read reader' c')"
  by pat_completeness auto
termination
  by (relation "measure (\<lambda>(reader, c). unread reader c)")
    (auto dest: ReadString_unread [OF sym])

declare lines_read.simps [simp del]

lemma and_then_assoc: "and_then (and_then r f) g = and_then r (\<lambda>x. and_then (f x) g)"
  by (cases r) simp_all

lemma server_run_append:
  "server_run (es @ fs) s = and_then (server_run es s) (server_run fs)"
proof (induction es arbitrary: s)
  case Nil
  then show ?case by simp
next
  case (Cons e es)
  show ?case
  proof (cases "server_step e s")
    case (Inl p)
    then show ?thesis by simp
  next
    case (Inr s1)
    with Cons.IH [of s1] show ?thesis by simp
  qed
qed

lemma loop_as_events:
  "handleClient_loop client reader c s = server_run (map (Says client) (lines_read reader c)) s"
proof (induction client reader c s rule: handleClient_loop.induct)
  case (1 client reader c s)
  obtain message err reader' c' where r: "ReadString reader newline c = ((message, err), reader', c')"
    by (metis surj_pair)
  show ?case
  proof (cases err)
    case (Some e)
    with r show ?thesis
      by (subst handleClient_loop.simps, subst lines_read.simps) simp
  next
    case None
    show ?thesis
    proof (cases "handleClient_message client message s")
      case (Inl p)
      with r None show ?thesis
        by (subst handleClient_loop.simps, subst lines_read.simps) simp
    next
      case (Inr s1)
      from "1.IH" [OF r [symmetric] refl None refl Inr] r None Inr show ?thesis
        by (subst handleClient_loop.simps, subst lines_read.simps) simp
    qed
  qed
qed

lemma setup_returns:
  assumes "handleClient_setup conn0 s = Inr (client, conn1, s1)"
  shows "client = next_addr s \<and> conn1 = snd (snd (ReadString NewReader newline conn0))"
proof -
  obtain name0 err reader c1 where r: "ReadString NewReader newline conn0 = ((name0, err), reader, c1)"
    by (metis surj_pair)
  from assms show ?thesis
    by (auto simp: setup_eq [OF r] r and_then_def split: sum.splits)
qed

lemma handleClient_as_events:
  "handleClient conn0 s =
     server_run (Connect conn0
        # map (Says (next_addr s))
            (lines_read NewReader (snd (snd (ReadString NewReader newline conn0))))
        @ [Disconnect (next_addr s)]) s"
proof (cases "handleClient_setup conn0 s")
  case (Inl p)
  then show ?thesis by (simp add: handleClient_def)
next
  case (Inr x)
  obtain client conn1 s1 where x: "x = (client, conn1, s1)" by (metis surj_pair)
  from setup_returns [OF Inr [unfolded x]]
  have c: "client = next_addr s" and k: "conn1 = snd (snd (ReadString NewReader newline conn0))"
    by simp_all
  have "server_run [Disconnect client] = handleClient_deferred client"
    by (rule ext) (simp add: and_then_def split: sum.splits)
  then show ?thesis
    using Inr x
    by (simp add: handleClient_def server_run_append loop_as_events flip: c k)
qed

definition counted :: "Server \<Rightarrow> bool" where
  "counted s \<longleftrightarrow> registry_ok s
     \<and> clientCounter s = of_nat (length (newClients s))
     \<and> (\<forall>k \<in> keys s. k < next_addr s)"

lemma update_fresh: "k \<notin> fst ` set m \<Longrightarrow> AList.update k v m = m @ [(k, v)]"
  by (induction m) auto

lemma length_delete:
  "distinct (map fst m) \<Longrightarrow> k \<in> fst ` set m \<Longrightarrow> Suc (length (AList.delete k m)) = length m"
  by (induction m) (auto simp: rev_image_eqI)

lemma step_counted:
  assumes "counted s" and "enabled e s"
  shows "\<exists>s'. server_step e s = Inr s' \<and> counted s'
      \<and> length (newClients s') + disconnects [e] = length (newClients s) + connects [e]"
proof (cases e)
  case (Connect conn0)
  obtain name0 err reader conn1 where
    r: "ReadString NewReader newline conn0 = ((name0, err), reader, conn1)"
    by (metis surj_pair)
  let ?j = "joined conn1 (TrimSpace name0) s"
  from assms(1) have ok: "registry_ok s" and fr: "next_addr s \<notin> fst ` set (newClients s)"
    and c: "clientCounter s = of_nat (length (newClients s))"
    and lt: "\<forall>k \<in> keys s. k < next_addr s"
    by (auto simp: counted_def keys_def)
  have n: "newClients ?j = newClients s @ [(next_addr s, True)]"
    by (simp add: joined_fields update_fresh [OF fr])
  have "counted ?j"
    using lt by (auto simp: counted_def registry_ok_joined [OF ok] joined_fields(2,3) n c keys_def)
  with setup_ok [OF ok r] n Connect show ?thesis by simp
next
  case (Says client message)
  from assms have ok: "registry_ok s" and k: "client \<in> keys s"
    by (simp_all add: counted_def Says)
  from registered_open [OF ok k] obtain cl where cl: "heap s client = Some cl" by blast
  show ?thesis
  proof (cases "TrimSpace message = []")
    case True
    with assms(1) Says show ?thesis by (simp add: handleClient_message_def)
  next
    case False
    have "counted (said client (name cl) (TrimSpace message) s)"
      using assms(1) by (simp add: counted_def)
    with message_ok [OF ok cl False] Says show ?thesis by simp
  qed
next
  case (Disconnect client)
  from assms have ok: "registry_ok s" and k: "client \<in> keys s"
    and c: "clientCounter s = of_nat (length (newClients s))"
    and lt: "\<forall>k \<in> keys s. k < next_addr s"
    by (simp_all add: counted_def Disconnect)
  from registered_open [OF ok k] obtain cl where cl: "heap s client = Some cl"
    and op: "\<not> closed (msgChan cl)" by blast
  from ok k have l: "Suc (length (AList.delete client (newClients s))) = length (newClients s)"
    by (simp add: length_delete registry_ok_def keys_def)
  then have "clientCounter s - 1 = of_nat (length (AList.delete client (newClients s)))"
    by (simp add: c flip: l)
  with lt have "counted (left client cl s)"
    by (auto simp: counted_def registry_ok_left [OF ok] left_fields keys_def keys_delete)
  with deferred_ok [OF ok cl op] l Disconnect show ?thesis by (simp add: left_fields)
next
  case (Pump client)
  from assms obtain cl where cl: "heap s client = Some cl" by (auto simp: Pump)
  obtain cl' where st: "server_step (Pump client) s = Inr (s\<lparr>heap := (heap s)(client \<mapsto> cl')\<rparr>)"
    and o: "closed (msgChan cl') = closed (msgChan cl)"
    using cl
    by (cases "writePump_step cl")
      (auto simp: writePump_step_def range_recv_def split: list.splits if_splits)
  have "is_open (s\<lparr>heap := (heap s)(client \<mapsto> cl')\<rparr>) k = is_open s k" for k
    using cl o by (simp add: is_open_def)
  then have "is_open (s\<lparr>heap := (heap s)(client \<mapsto> cl')\<rparr>) = is_open s" by (rule ext)
  with assms(1) have "counted (s\<lparr>heap := (heap s)(client \<mapsto> cl')\<rparr>)"
    by (simp add: counted_def registry_ok_def keys_def)
  with st Pump show ?thesis by simp
qed


lemma sint_of_nat_small:
  assumes "int m < 2 ^ 31"
  shows "sint (of_nat m :: 32 word) = int m"
proof -
  have "sint (of_nat m :: 32 word) = signed_take_bit 31 (int m)"
    by transfer (simp add: signed_take_bit_take_bit)
  also have "\<dots> = int m"
    using assms by (intro signed_take_bit_int_eq_self) simp_all
  finally show ?thesis .
qed

lemma connects_Cons: "connects (e # es) = connects [e] + connects es"
  by (cases e) simp_all

lemma disconnects_Cons: "disconnects (e # es) = disconnects [e] + disconnects es"
  by (cases e) simp_all

lemma run_counted:
  assumes "counted s" and "feasible es s"
  shows "\<exists>s'. server_run es s = Inr s' \<and> counted s'
      \<and> length (newClients s') + disconnects es = length (newClients s) + connects es"
  using assms
proof (induction es arbitrary: s)
  case Nil
  then show ?case by simp
next
  case (Cons e es)
  from Cons.prems have en: "enabled e s" by simp
  from step_counted [OF Cons.prems(1) en] obtain s1 where
    st: "server_step e s = Inr s1" and c1: "counted s1"
    and n1: "length (newClients s1) + disconnects [e] = length (newClients s) + connects [e]"
    by blast
  from Cons.prems(2) st have "feasible es s1" by simp
  from Cons.IH [OF c1 this] obtain s' where
    r: "server_run es s1 = Inr s'" and c': "counted s'"
    and n': "length (newClients s') + disconnects es = length (newClients s1) + connects es"
    by blast
  have "length (newClients s') + disconnects (e # es) = length (newClients s) + connects (e # es)"
    using n1 n' connects_Cons [of e es] disconnects_Cons [of e es] by linarith
  with st r c' show ?case by simp
qed

text \<open>Every state that a feasible sequence of events reaches from the start of the
  server satisfies \<open>registry_ok\<close>, and no event of it panics.\<close>

lemma registry_ok_reached:
  assumes "newClients s = []" and "clientCounter s = 0" and "feasible es s"
  shows "\<exists>s'. server_run es s = Inr s' \<and> registry_ok s'"
proof -
  have "counted s"
    using assms(1,2) by (simp add: counted_def registry_ok_def keys_def)
  from run_counted [OF this assms(3)] show ?thesis
    by (auto simp: counted_def)
qed

lemma feasible_take: "feasible es s \<Longrightarrow> feasible (take n es) s"
proof (induction es arbitrary: s n)
  case Nil
  then show ?case by simp
next
  case (Cons e es)
  show ?case
  proof (cases n)
    case 0
    then show ?thesis by simp
  next
    case (Suc m)
    with Cons show ?thesis by (auto split: sum.splits)
  qed
qed

lemma connects_le: "connects es \<le> length es"
  by (induction es rule: connects.induct) simp_all

lemma feasible_connects: "feasible (replicate n (Connect c)) s"
  by (induction n arbitrary: s) (auto split: sum.splits)

lemma connects_replicate:
  "connects (replicate n (Connect c)) = n" "disconnects (replicate n (Connect c)) = 0"
  by (induction n) simp_all

lemma run_connects:
  assumes "counted s"
  shows "\<exists>s'. server_run (replicate n (Connect c)) s = Inr s'
      \<and> clientCounter s' = clientCounter s + of_nat n"
proof -
  from run_counted [OF assms feasible_connects, of n c] obtain s' where
    r: "server_run (replicate n (Connect c)) s = Inr s'" and c': "counted s'"
    and l: "length (newClients s') = length (newClients s) + n"
    by (auto simp: connects_replicate)
  from assms c' l have "clientCounter s' = clientCounter s + of_nat n"
    by (simp add: counted_def)
  with r show ?thesis by blast
qed

section \<open>Example states\<close>

text \<open>Two registered clients on a healthy connection: bob with an empty queue and
  carol with a queue that is full.\<close>

definition example_conn :: Conn where
  "example_conn = \<lparr>remote = ''10.0.0.7:4242'', incoming = [], ending = EOF, sent = [],
     broken = False, conn_closed = False\<rparr>"

definition example_client :: "string \<Rightarrow> string list \<Rightarrow> Client" where
  "example_client n q = \<lparr>conn = example_conn, name = n, writer = NewWriter,
     msgChan = \<lparr>buf = q, cap = 100, closed = False\<rparr>\<rparr>"

definition two_clients :: Server where
  "two_clients = \<lparr>newClients = [(0, True), (1, True)], clientCounter = 2,
     heap = [0 \<mapsto> example_client ''bob'' [], 1 \<mapsto> example_client ''carol'' (replicate 100 ''x'')],
     next_addr = 2, console = [], clock = ''15:04:05''\<rparr>"

lemma registry_ok_two_clients: "registry_ok two_clients"
  by (simp add: registry_ok_def two_clients_def is_open_def example_client_def)

text \<open>One registered client whose queue is full.\<close>

definition full_state :: Server where
  "full_state = \<lparr>newClients = [(0, True)], clientCounter = 1,
     heap = [0 \<mapsto> example_client ''carol'' (replicate 100 ''x'')],
     next_addr = 1, console = [], clock = ''15:04:05''\<rparr>"

text \<open>A client with two messages queued on a connection whose writes fail.\<close>

definition stalled_client :: Client where
  "stalled_client = \<lparr>conn = example_conn\<lparr>broken := True\<rparr>, name = ''bob'', writer = NewWriter,
     msgChan = \<lparr>buf = [''a'' @ [newline], ''b'' @ [newline]], cap = 100, closed = False\<rparr>\<rparr>"

text \<open>A connection that delivers a line of white space and then the line \<open>hi\<close>.\<close>

definition blank_then_hi :: Conn where
  "blank_then_hi = example_conn\<lparr>incoming := ['' '' @ [CHR 0x09, newline], ''hi'' @ [newline]]\<rparr>"

lemma TrimSpace_blank: "TrimSpace ('' '' @ [CHR 0x09, newline]) = []"
  by code_simp

text \<open>Bob alone, and bob with dave, all queues empty.\<close>

definition bob_alone :: Server where
  "bob_alone = \<lparr>newClients = [(0, True)], clientCounter = 1,
     heap = [0 \<mapsto> example_client ''bob'' []],
     next_addr = 1, console = [], clock = ''15:04:05''\<rparr>"

lemma registry_ok_bob_alone: "registry_ok bob_alone"
  by (simp add: registry_ok_def bob_alone_def is_open_def example_client_def)

definition bob_and_dave :: Server where
  "bob_and_dave = \<lparr>newClients = [(0, True), (1, True)], clientCounter = 2,
     heap = [0 \<mapsto> example_client ''bob'' [], 1 \<mapsto> example_client ''dave'' []],
     next_addr = 2, console = [], clock = ''15:04:05''\<rparr>"

lemma registry_ok_bob_and_dave: "registry_ok bob_and_dave"
  by (simp add: registry_ok_def bob_and_dave_def is_open_def example_client_def)

text \<open>Alice's name and her first line, arriving in one segment and in two.\<close>

definition alice_one_segment :: Conn where
  "alice_one_segment = example_conn\<lparr>incoming := [''alice'' @ [newline] @ ''hello'' @ [newline]]\<rparr>"

definition alice_two_segments :: Conn where
  "alice_two_segments = example_conn\<lparr>incoming := [''alice'' @ [newline], ''hello'' @ [newline]]\<rparr>"

text \<open>
  \<open>main\<close> prints four lines and then accepts connections for ever, starting one
  \<open>handleClient\<close> for each (the \<open>Connect\<close> events); an \<open>Accept\<close> that fails only
  prints its error. The registry starts empty and the counter at 0, as declared.
  \<open>just_started\<close> is the server then, and \<open>busy_hour\<close> is five events: two clients
  connect, the first says \<open>hi\<close>, the writer of the second takes a turn, the first
  disconnects.
\<close>

definition banner :: "string list" where
  "banner =
    [[CHR 0x54, CHR 0x43, CHR 0x50, CHR 0x20, CHR 0xE8, CHR 0x81, CHR 0x8A, CHR 0xE5,
      CHR 0xA4, CHR 0xA9, CHR 0xE6, CHR 0x9C, CHR 0x8D, CHR 0xE5, CHR 0x8A, CHR 0xA1,
      CHR 0xE5, CHR 0x99, CHR 0xA8, CHR 0xE5, CHR 0x90, CHR 0xAF, CHR 0xE5, CHR 0x8A,
      CHR 0xA8, CHR 0xE6, CHR 0x88, CHR 0x90, CHR 0xE5, CHR 0x8A, CHR 0x9F, CHR 0xEF,
      CHR 0xBC, CHR 0x81, CHR 0x0A],
     [CHR 0xE7, CHR 0x9B, CHR 0x91, CHR 0xE5, CHR 0x90, CHR 0xAC, CHR 0xE5, CHR 0x9C,
      CHR 0xB0, CHR 0xE5, CHR 0x9D, CHR 0x80] @ '': localhost:9999'' @ [newline],
     [CHR 0xE7, CHR 0xAD, CHR 0x89, CHR 0xE5, CHR 0xBE, CHR 0x85, CHR 0xE5, CHR 0xAE,
      CHR 0xA2, CHR 0xE6, CHR 0x88, CHR 0xB7, CHR 0xE7, CHR 0xAB, CHR 0xAF, CHR 0xE8,
      CHR 0xBF, CHR 0x9E, CHR 0xE6, CHR 0x8E, CHR 0xA5] @ ''...'' @ [newline],
     replicate 40 (CHR ''='') @ [newline]]"

definition just_started :: Server where
  "just_started = \<lparr>newClients = [], clientCounter = 0, heap = Map.empty, next_addr = 0,
     console = banner, clock = ''15:04:05''\<rparr>"

lemma counted_just_started: "counted just_started"
  by (simp add: counted_def registry_ok_def keys_def just_started_def)

definition busy_hour :: "event list" where
  "busy_hour = [Connect alice_two_segments, Connect example_conn,
     Says 0 (''hi'' @ [newline]), Pump 1, Disconnect 0]"

section \<open>The claims\<close>

text \<open>
  C9. Removing a participant from the registry is idempotent: \<open>newClients.Delete\<close> of a
  pointer that is not a key leaves the server state as it is (it has no error result),
  deleting twice gives the state that deleting once gives, and after it the pointer is
  not a key.
\<close>

theorem Delete_idempotent:
  "(k \<notin> fst ` set (newClients s) \<longrightarrow> Delete k s = s)
   \<and> Delete k (Delete k s) = Delete k s
   \<and> k \<notin> fst ` set (newClients (Delete k s))"
  by (simp add: Delete_def delete_id delete_idem delete_notin_dom)

theorem Delete_idempotent_witness:
  "7 \<notin> fst ` set (newClients two_clients) \<and> Delete 7 two_clients = two_clients
   \<and> Delete 0 (Delete 0 two_clients) = Delete 0 two_clients
   \<and> newClients (Delete 0 two_clients) = [(1, True)]"
  using Delete_idempotent [of 7 two_clients] Delete_idempotent [of 0 two_clients]
  by (simp add: two_clients_def Delete_def)

text \<open>
  C5. In a state in which \<open>registry_ok\<close> holds (every state the server reaches, by
  \<open>registry_ok_reached\<close>), \<open>broadcast message exclude\<close> does not panic, and each registered client other than \<open>exclude\<close> ends as one run of the
  \<open>select\<close> statement leaves it (\<open>attempt message\<close>: one copy appended when its queue
  has room), the console gaining one line for each of them whose queue was full; the
  excluded client and the clients that are not registered are untouched, and the
  registry and the counter are unchanged. With \<open>exclude\<close> nil every registered client
  gets its one attempt.
\<close>

theorem broadcast_one_attempt_each:
  assumes "registry_ok s"
  shows "(\<exists>s'. broadcast message exclude s = Inr s'
           \<and> (\<forall>k. heap s' k =
                 (if k \<in> fst ` set (newClients s) \<and> Some k \<noteq> exclude
                  then map_option (attempt message) (heap s k) else heap s k))
           \<and> console s' = console s
                 @ map (\<lambda>k. full_log (name_of s k))
                     (filter (is_full s) (targets exclude (newClients s)))
           \<and> newClients s' = newClients s \<and> clientCounter s' = clientCounter s)
       \<and> (\<exists>s'. broadcast message None s = Inr s'
           \<and> (\<forall>k. heap s' k =
                 (if k \<in> fst ` set (newClients s)
                  then map_option (attempt message) (heap s k) else heap s k)))"
proof -
  have "set (targets exclude (newClients s))
      = {k. k \<in> fst ` set (newClients s) \<and> Some k \<noteq> exclude}" for exclude
    by (auto simp: targets_def)
  then show ?thesis
    by (simp add: broadcast_ok [OF assms] after_broadcast_def)
qed

theorem broadcast_one_attempt_each_witness:
  "registry_ok two_clients
   \<and> (\<exists>s'. broadcast ''hi'' (Some 0) two_clients = Inr s'
        \<and> heap s' 0 = Some (example_client ''bob'' [])
        \<and> heap s' 1 = Some (example_client ''carol'' (replicate 100 ''x''))
        \<and> console s' = [full_log ''carol''])
   \<and> (\<exists>s'. broadcast ''hi'' None two_clients = Inr s'
        \<and> heap s' 0 = Some (example_client ''bob'' [''hi'']))"
proof -
  from broadcast_one_attempt_each [OF registry_ok_two_clients, of "''hi''" "Some 0"]
  obtain s' s'' where a: "broadcast ''hi'' (Some 0) two_clients = Inr s'"
    and h: "\<And>k. heap s' k =
                 (if k \<in> fst ` set (newClients two_clients) \<and> Some k \<noteq> Some 0
                  then map_option (attempt ''hi'') (heap two_clients k) else heap two_clients k)"
    and c: "console s' = console two_clients
                 @ map (\<lambda>k. full_log (name_of two_clients k))
                     (filter (is_full two_clients) (targets (Some 0) (newClients two_clients)))"
    and b: "broadcast ''hi'' None two_clients = Inr s''"
    and h': "\<And>k. heap s'' k =
                 (if k \<in> fst ` set (newClients two_clients)
                  then map_option (attempt ''hi'') (heap two_clients k) else heap two_clients k)"
    by blast
  have "heap s' 0 = Some (example_client ''bob'' [])"
    by (simp add: h two_clients_def)
  moreover have "heap s' 1 = Some (example_client ''carol'' (replicate 100 ''x''))"
    by (simp add: h two_clients_def attempt_def select_send_def example_client_def)
  moreover have "console s' = [full_log ''carol'']"
    by (simp add: c two_clients_def targets_def is_full_def name_of_def example_client_def)
  moreover have "heap s'' 0 = Some (example_client ''bob'' [''hi''])"
    by (simp add: h' two_clients_def attempt_def select_send_def example_client_def)
  ultimately show ?thesis
    using a b registry_ok_two_clients by simp
qed

text \<open>
  C2, as the code has it. For a client with an open channel of capacity 100: when the
  queue holds fewer than 100 messages, \<open>sendMessage\<close> and the visit of \<open>broadcast\<close> both
  append the message; when it is full, both return at once and the message is dropped.
  The visit of \<open>broadcast\<close> then prints \<open>client NAME channel full, skip\<close>;
  \<open>sendMessage\<close> prints nothing and leaves the whole state as it was.
\<close>

theorem enqueue_appends_or_drops:
  assumes "heap s c = Some cl" and "\<not> closed (msgChan cl)" and "cap (msgChan cl) = 100"
    and "Some c \<noteq> exclude"
  shows "if length (buf (msgChan cl)) < 100
         then sendMessage c message s
                = Inr (s\<lparr>heap := (heap s)(c \<mapsto>
                     cl\<lparr>msgChan := (msgChan cl)\<lparr>buf := buf (msgChan cl) @ [message]\<rparr>\<rparr>)\<rparr>)
            \<and> broadcast_visit message exclude c v s
                = Inr (True, s\<lparr>heap := (heap s)(c \<mapsto>
                     cl\<lparr>msgChan := (msgChan cl)\<lparr>buf := buf (msgChan cl) @ [message]\<rparr>\<rparr>)\<rparr>)
         else sendMessage c message s = Inr s
            \<and> broadcast_visit message exclude c v s
                = Inr (True, s\<lparr>console := console s
                     @ [''client '' @ name cl @ '' channel full, skip'' @ [newline]]\<rparr>)"
  using assms
  by (simp add: sendMessage_def broadcast_visit_def select_send_def Printf_def full_log_def)

theorem enqueue_appends_or_drops_witness:
  "heap two_clients 0 = Some (example_client ''bob'' [])
   \<and> heap two_clients 1 = Some (example_client ''carol'' (replicate 100 ''x''))
   \<and> (\<exists>s'. sendMessage 0 ''hi'' two_clients = Inr s'
         \<and> heap s' 0 = Some (example_client ''bob'' [''hi'']) \<and> console s' = [])
   \<and> (\<exists>s'. broadcast_visit ''hi'' None 0 True two_clients = Inr (True, s')
         \<and> heap s' 0 = Some (example_client ''bob'' [''hi'']) \<and> console s' = [])
   \<and> sendMessage 1 ''hi'' two_clients = Inr two_clients
   \<and> broadcast_visit ''hi'' None 1 True two_clients
        = Inr (True, two_clients\<lparr>console := [''client carol channel full, skip'' @ [newline]]\<rparr>)"
proof -
  have b: "heap two_clients 0 = Some (example_client ''bob'' [])"
    and c: "heap two_clients 1 = Some (example_client ''carol'' (replicate 100 ''x''))"
    by (simp_all add: two_clients_def)
  have o: "\<not> closed (msgChan (example_client n q))" "cap (msgChan (example_client n q)) = 100"
    for n q by (simp_all add: example_client_def)
  from enqueue_appends_or_drops [OF b o, of None "''hi''" True]
    enqueue_appends_or_drops [OF c o, of None "''hi''" True]
  show ?thesis
    by (simp add: b c) (simp add: example_client_def two_clients_def)
qed

text \<open>The claim as stated fails on the direct path: \<open>sendMessage\<close> to a client whose
  queue holds 100 messages returns the state unchanged, so the console stays empty.\<close>

theorem sendMessage_drop_not_logged_counterexample:
  "length (buf (msgChan (example_client ''carol'' (replicate 100 ''x'')))) = 100
   \<and> sendMessage 0 ''lost'' full_state = Inr full_state
   \<and> console full_state = []"
  by (simp add: sendMessage_def full_state_def example_client_def select_send_def)

text \<open>
  C3, as the code has it. When the write of a dequeued message fails (the connection
  is broken or closed), \<open>writePump\<close> stays in its loop: the turn ends \<open>Running\<close> with
  the error kept in the \<open>bufio.Writer\<close> and the connection not closed by it, and the
  loop goes on to take every queued message, none of which reaches the peer. It returns,
  closing the connection, exactly when the channel has been closed; while the channel
  is open it waits for the next message.
\<close>

theorem writePump_outlives_failed_write:
  assumes "buf (msgChan cl) = m # ms" and "m \<noteq> []" and "wbuf (writer cl) = []"
    and "broken (conn cl) \<or> conn_closed (conn cl)"
  shows "\<exists>cl1 cl'. writePump_step cl = Running cl1
      \<and> werr (writer cl1) \<and> sent (conn cl1) = sent (conn cl)
      \<and> buf (msgChan cl1) = ms \<and> conn_closed (conn cl1) = conn_closed (conn cl)
      \<and> writePump cl = (if closed (msgChan cl) then Returned cl' else Blocked cl')
      \<and> buf (msgChan cl') = [] \<and> sent (conn cl') = sent (conn cl)
      \<and> conn_closed (conn cl') = (closed (msgChan cl) \<or> conn_closed (conn cl))"
proof -
  define cl1 where "cl1 = writePump_body m (cl\<lparr>msgChan := (msgChan cl)\<lparr>buf := ms\<rparr>\<rparr>)"
  have st: "writePump_step cl = Running cl1"
    using assms(1) by (simp add: writePump_step_def range_recv_def cl1_def)
  have f: "werr (writer cl1) \<and> sent (conn cl1) = sent (conn cl)"
    using writePump_body_failed [of "cl\<lparr>msgChan := (msgChan cl)\<lparr>buf := ms\<rparr>\<rparr>" m] assms
    by (simp add: cl1_def)
  have k: "buf (msgChan cl1) = ms" "conn_closed (conn cl1) = conn_closed (conn cl)"
    "closed (msgChan cl1) = closed (msgChan cl)"
    by (simp_all add: cl1_def)
  have w: "writePump cl = writePump cl1"
    by (subst writePump.simps) (simp add: st)
  from writePump_drains [of cl1] obtain cl' where
    "writePump cl1 = (if closed (msgChan cl1) then Returned cl' else Blocked cl')"
    "buf (msgChan cl') = []"
    "conn_closed (conn cl') = (closed (msgChan cl1) \<or> conn_closed (conn cl1))"
    "werr (writer cl1) \<longrightarrow> werr (writer cl') \<and> sent (conn cl') = sent (conn cl1)"
    by blast
  with st f k w show ?thesis by auto
qed

theorem writePump_outlives_failed_write_witness:
  "buf (msgChan stalled_client) = (''a'' @ [newline]) # [''b'' @ [newline]]
   \<and> wbuf (writer stalled_client) = [] \<and> broken (conn stalled_client)
   \<and> (\<exists>cl1 cl'. writePump_step stalled_client = Running cl1 \<and> werr (writer cl1)
        \<and> buf (msgChan cl1) = [''b'' @ [newline]] \<and> \<not> conn_closed (conn cl1)
        \<and> writePump stalled_client = Blocked cl' \<and> buf (msgChan cl') = []
        \<and> sent (conn cl') = [] \<and> \<not> conn_closed (conn cl'))"
proof -
  have a: "buf (msgChan stalled_client) = (''a'' @ [newline]) # [''b'' @ [newline]]"
    and b: "''a'' @ [newline] \<noteq> []" and c: "wbuf (writer stalled_client) = []"
    and d: "broken (conn stalled_client) \<or> conn_closed (conn stalled_client)"
    by (simp_all add: stalled_client_def NewWriter_def)
  from writePump_outlives_failed_write [OF a b c d] show ?thesis
    by (auto simp: stalled_client_def NewWriter_def example_conn_def)
qed

text \<open>The claim as stated fails: on a broken connection with two messages queued, the
  first turn fails to write and the second turn still takes the second message; the
  connection is closed by neither.\<close>

theorem writePump_failed_write_counterexample:
  "(case writePump_step stalled_client of
      Running c1 \<Rightarrow>
        werr (writer c1) \<and> sent (conn c1) = [] \<and> \<not> conn_closed (conn c1)
        \<and> (case writePump_step c1 of
              Running c2 \<Rightarrow> buf (msgChan c2) = [] \<and> \<not> conn_closed (conn c2)
            | Returned c2 \<Rightarrow> False
            | Blocked c2 \<Rightarrow> False)
    | Returned c1 \<Rightarrow> False
    | Blocked c1 \<Rightarrow> False)"
  by (simp add: stalled_client_def writePump_step_def range_recv_def writePump_body_def
      WriteString_def Flush_def conn_Write_def NewWriter_def example_conn_def)

text \<open>
  C10. When the loop reads a line that \<open>strings.TrimSpace\<close> makes empty, the body
  returns the server state as it was (nothing is queued or printed, the registry and
  the counter are the same) and the loop goes on with the next read.
\<close>

theorem blank_line_skipped:
  assumes "ReadString reader newline c = ((message, None), reader', c')"
    and "TrimSpace message = []"
  shows "handleClient_message client message s = Inr s
       \<and> handleClient_loop client reader c s = handleClient_loop client reader' c' s"
proof -
  have m: "handleClient_message client message s = Inr s"
    using assms(2) by (simp add: handleClient_message_def)
  show ?thesis
    by (subst handleClient_loop.simps) (simp add: assms(1) m)
qed

theorem blank_line_skipped_witness:
  "ReadString NewReader newline blank_then_hi
     = (('' '' @ [CHR 0x09, newline], None), NewReader,
        blank_then_hi\<lparr>incoming := [''hi'' @ [newline]]\<rparr>)
   \<and> TrimSpace ('' '' @ [CHR 0x09, newline]) = []
   \<and> handleClient_message 0 ('' '' @ [CHR 0x09, newline]) two_clients = Inr two_clients
   \<and> handleClient_loop 0 NewReader blank_then_hi two_clients
       = handleClient_loop 0 NewReader (blank_then_hi\<lparr>incoming := [''hi'' @ [newline]]\<rparr>) two_clients"
proof -
  have r: "ReadString NewReader newline blank_then_hi
     = (('' '' @ [CHR 0x09, newline], None), NewReader,
        blank_then_hi\<lparr>incoming := [''hi'' @ [newline]]\<rparr>)"
    by (simp add: ReadString_def NewReader_def blank_then_hi_def example_conn_def newline_def)
  from blank_line_skipped [OF r TrimSpace_blank, of 0 two_clients] r TrimSpace_blank
  show ?thesis by simp
qed

text \<open>
  C7. Whatever a registered client still sends, and whichever error ends its stream
  (\<open>EOF\<close> when the peer closed, a network error otherwise), the loop returns without
  changing the registry or the counter and the deferred function then runs once: the
  client is deleted from the registry, the counter goes down by one, the client's
  channel is closed, and every remaining participant gets one attempt for the
  departure announcement followed by one attempt for the new count.
\<close>

theorem departure_exactly_once:
  assumes "registry_ok s" and "client \<in> keys s"
  shows "\<exists>cl s1 s'. heap s client = Some cl
      \<and> handleClient_loop client reader c s = Inr s1
      \<and> newClients s1 = newClients s \<and> clientCounter s1 = clientCounter s
      \<and> and_then (handleClient_loop client reader c s) (handleClient_deferred client) = Inr s'
      \<and> s' = left client cl s1
      \<and> newClients s' = AList.delete client (newClients s)
      \<and> client \<notin> keys s'
      \<and> clientCounter s' = clientCounter s - 1
      \<and> (\<forall>k. heap s' k =
            (if k = client then Some (cl\<lparr>msgChan := (msgChan cl)\<lparr>closed := True\<rparr>\<rparr>)
             else if k \<in> keys s
             then map_option (attempt (online_msg (clientCounter s - 1))
                                \<circ> attempt (left_msg (name cl))) (heap s1 k)
             else heap s1 k))"
proof -
  from registered_open [OF assms] obtain cl where cl: "heap s client = Some cl"
    and op: "\<not> closed (msgChan cl)" by blast
  from loop_ok [OF assms(1) cl, of reader c] obtain s1 where
    l: "handleClient_loop client reader c s = Inr s1" and ok: "registry_ok s1"
    and n: "newClients s1 = newClients s" and k: "clientCounter s1 = clientCounter s"
    and h: "heap s1 client = Some cl"
    by blast
  have d: "handleClient_deferred client s1 = Inr (left client cl s1)"
    by (rule deferred_ok [OF ok h op])
  have ks: "keys s1 = keys s" by (simp add: keys_def n)
  have "client \<notin> keys (left client cl s1)"
    by (simp add: keys_def left_fields delete_notin_dom)
  with cl l n k d ks show ?thesis
    by (simp add: left_fields heap_left)
qed

theorem departure_exactly_once_witness:
  "registry_ok bob_and_dave \<and> 1 \<in> keys bob_and_dave
   \<and> (\<exists>s'. and_then (handleClient_loop 1 NewReader (example_conn\<lparr>ending := NetError\<rparr>) bob_and_dave)
               (handleClient_deferred 1) = Inr s'
         \<and> newClients s' = [(0, True)] \<and> clientCounter s' = 1
         \<and> heap s' 0 = Some (example_client ''bob'' [left_msg ''dave'', online_msg 1]))
   \<and> (\<exists>s'. and_then (handleClient_loop 1 NewReader (example_conn\<lparr>ending := EOF\<rparr>) bob_and_dave)
               (handleClient_deferred 1) = Inr s'
         \<and> newClients s' = [(0, True)] \<and> clientCounter s' = 1
         \<and> heap s' 0 = Some (example_client ''bob'' [left_msg ''dave'', online_msg 1]))"
proof -
  have k: "1 \<in> keys bob_and_dave" by (simp add: keys_def bob_and_dave_def)
  have r: "handleClient_loop 1 NewReader (example_conn\<lparr>ending := e\<rparr>) bob_and_dave = Inr bob_and_dave"
    for e
    by (subst handleClient_loop.simps)
      (simp add: ReadString_def NewReader_def example_conn_def)
  have "\<exists>s'. and_then (handleClient_loop 1 NewReader (example_conn\<lparr>ending := e\<rparr>) bob_and_dave)
               (handleClient_deferred 1) = Inr s'
         \<and> newClients s' = [(0, True)] \<and> clientCounter s' = 1
         \<and> heap s' 0 = Some (example_client ''bob'' [left_msg ''dave'', online_msg 1])" for e
  proof -
    from departure_exactly_once [OF registry_ok_bob_and_dave k, of NewReader "example_conn\<lparr>ending := e\<rparr>"]
    obtain cl s1 s' where cl: "heap bob_and_dave 1 = Some cl"
      and l: "handleClient_loop 1 NewReader (example_conn\<lparr>ending := e\<rparr>) bob_and_dave = Inr s1"
      and a: "and_then (handleClient_loop 1 NewReader (example_conn\<lparr>ending := e\<rparr>) bob_and_dave)
               (handleClient_deferred 1) = Inr s'"
      and n: "newClients s' = AList.delete 1 (newClients bob_and_dave)"
      and c: "clientCounter s' = clientCounter bob_and_dave - 1"
      and h: "\<And>k. heap s' k =
            (if k = 1 then Some (cl\<lparr>msgChan := (msgChan cl)\<lparr>closed := True\<rparr>\<rparr>)
             else if k \<in> keys bob_and_dave
             then map_option (attempt (online_msg (clientCounter bob_and_dave - 1))
                                \<circ> attempt (left_msg (name cl))) (heap s1 k)
             else heap s1 k)"
      by blast
    from l r have s1: "s1 = bob_and_dave" by simp
    from cl have cl': "cl = example_client ''dave'' []" by (simp add: bob_and_dave_def)
    have "newClients s' = [(0, True)]" by (simp add: n bob_and_dave_def)
    moreover have "clientCounter s' = 1" by (simp add: c bob_and_dave_def)
    moreover have "heap s' 0 = Some (example_client ''bob'' [left_msg ''dave'', online_msg 1])"
      by (simp add: h s1 cl' keys_def)
        (simp add: bob_and_dave_def attempt_def select_send_def example_client_def)
    ultimately show ?thesis using a by blast
  qed
  with k registry_ok_bob_and_dave show ?thesis by blast
qed

text \<open>
  C1. The code does not do what the claim says. The error of the first \<open>ReadString\<close>
  is dropped (\<open>name, _ := \<dots>\<close>): a peer that hangs up before it sends a name is
  registered under the empty name, the counter is incremented, the welcome and the
  count are queued for it, and bob is told that it joined; the loop then fails to
  read, and bob is told that it left.
\<close>

theorem name_read_failure_registers:
  "ReadString NewReader newline example_conn = (([], Some EOF), NewReader, example_conn)
   \<and> (case handleClient_setup example_conn bob_alone of
         Inl e \<Rightarrow> False
       | Inr (c, c1, s') \<Rightarrow>
           c = 1 \<and> newClients s' = [(0, True), (1, True)] \<and> clientCounter s' = 2
           \<and> map_option name (heap s' 1) = Some []
           \<and> map_option (buf \<circ> msgChan) (heap s' 1) = Some [welcome_msg [], online_msg 2]
           \<and> map_option (buf \<circ> msgChan) (heap s' 0) = Some [joined_msg [], online_msg 2])
   \<and> (case handleClient example_conn bob_alone of
         Inl e \<Rightarrow> False
       | Inr s' \<Rightarrow> map_option (buf \<circ> msgChan) (heap s' 0)
           = Some [joined_msg [], online_msg 2, left_msg [], online_msg 1])"
  by code_simp

text \<open>
  C6. The code does not do what the claim says for a line that arrives together with
  the name. The loop reads with a second \<open>bufio.Reader\<close> (line 140), so what the first
  one had buffered behind the name is lost: when \<open>alice\<close> and \<open>hello\<close> come in one
  segment bob never gets \<open>alice: hello\<close>; when they come in two he does.
\<close>

theorem line_after_name_lost:
  "(case handleClient alice_one_segment bob_alone of
      Inl e \<Rightarrow> False
    | Inr s' \<Rightarrow> map_option (buf \<circ> msgChan) (heap s' 0)
        = Some [joined_msg ''alice'', online_msg 2, left_msg ''alice'', online_msg 1])
   \<and> (case handleClient alice_two_segments bob_alone of
      Inl e \<Rightarrow> False
    | Inr s' \<Rightarrow> map_option (buf \<circ> msgChan) (heap s' 0)
        = Some [joined_msg ''alice'', online_msg 2, chat_msg ''alice'' ''hello'',
                left_msg ''alice'', online_msg 1])"
  by code_simp

text \<open>For a line that the loop does read, the claim holds: every other registered
  participant gets one attempt for the sender's name, a colon, a space, the trimmed
  line and a newline, and the sender's own queue is not touched.\<close>

lemma chat_line_broadcast:
  assumes "registry_ok s" and "heap s c = Some cl" and "TrimSpace message0 \<noteq> []"
  shows "\<exists>s'. handleClient_message c message0 s = Inr s'
      \<and> (\<forall>k. heap s' k =
            (if k \<in> keys s \<and> k \<noteq> c
             then map_option (attempt (name cl @ '': '' @ TrimSpace message0 @ [newline])) (heap s k)
             else heap s k))
      \<and> newClients s' = newClients s \<and> clientCounter s' = clientCounter s"
  by (simp add: message_ok [OF assms] heap_said chat_msg_def)

text \<open>
  C8. For a client whose channel is open and whose writer is idle, after any sequence
  of enqueue attempts and writer turns the bytes written to the connection are the
  old ones followed by the concatenation of messages \<open>ws\<close>, and \<open>ws\<close> followed by what
  is still queued is a subsequence of what was queued before followed by the enqueued
  messages: the writer never reorders. On a healthy connection, while the capacity is
  not exceeded, nothing is lost either.
\<close>

theorem writer_keeps_enqueue_order:
  assumes "\<not> closed (msgChan cl)" and "writer_idle cl"
  shows "\<exists>cl' ws. queue_run es cl = Inr cl'
      \<and> sent (conn cl') = sent (conn cl) @ concat ws
      \<and> subseq (ws @ buf (msgChan cl')) (buf (msgChan cl) @ enqueued es)
      \<and> (healthy cl \<and> length (buf (msgChan cl)) + length (enqueued es) \<le> cap (msgChan cl)
            \<longrightarrow> ws @ buf (msgChan cl') = buf (msgChan cl) @ enqueued es)"
  using assms
proof (induction es arbitrary: cl)
  case Nil
  have "queue_run [] cl = Inr cl
      \<and> sent (conn cl) = sent (conn cl) @ concat []
      \<and> subseq ([] @ buf (msgChan cl)) (buf (msgChan cl) @ enqueued [])
      \<and> (healthy cl \<and> length (buf (msgChan cl)) + length (enqueued []) \<le> cap (msgChan cl)
            \<longrightarrow> [] @ buf (msgChan cl) = buf (msgChan cl) @ enqueued [])"
    by simp
  then show ?case by blast
next
  case (Cons e es)
  show ?case
  proof (cases e)
    case (Enq m)
    from enqueue_step [OF Cons.prems(1), of m] obtain cl1 where
      st: "queue_step (Enq m) cl = Inr cl1"
      and same: "conn cl1 = conn cl" "writer cl1 = writer cl"
        "closed (msgChan cl1) = closed (msgChan cl)" "cap (msgChan cl1) = cap (msgChan cl)"
      and b: "buf (msgChan cl1) = buf (msgChan cl) @ [m] \<or> buf (msgChan cl1) = buf (msgChan cl)"
      and room: "length (buf (msgChan cl)) < cap (msgChan cl)
            \<longrightarrow> buf (msgChan cl1) = buf (msgChan cl) @ [m]"
      by blast
    have o1: "\<not> closed (msgChan cl1)" using Cons.prems(1) same by simp
    have i1: "writer_idle cl1" using Cons.prems(2) same by (simp add: writer_idle_def)
    from Cons.IH [OF o1 i1] obtain cl' ws where
      r: "queue_run es cl1 = Inr cl'"
      and s: "sent (conn cl') = sent (conn cl1) @ concat ws"
      and q: "subseq (ws @ buf (msgChan cl')) (buf (msgChan cl1) @ enqueued es)"
      and x: "healthy cl1 \<and> length (buf (msgChan cl1)) + length (enqueued es) \<le> cap (msgChan cl1)
            \<longrightarrow> ws @ buf (msgChan cl') = buf (msgChan cl1) @ enqueued es"
      by blast
    have "subseq (buf (msgChan cl1) @ enqueued es) (buf (msgChan cl) @ m # enqueued es)"
      using b by (auto simp: subseq_append')
    with q have q': "subseq (ws @ buf (msgChan cl')) (buf (msgChan cl) @ enqueued (e # es))"
      using Enq subseq_order.order_trans by auto
    have x': "ws @ buf (msgChan cl') = buf (msgChan cl) @ enqueued (e # es)"
      if "healthy cl" "length (buf (msgChan cl)) + length (enqueued (e # es)) \<le> cap (msgChan cl)"
    proof -
      from that(2) Enq have "length (buf (msgChan cl)) < cap (msgChan cl)" by simp
      with room have b1: "buf (msgChan cl1) = buf (msgChan cl) @ [m]" by simp
      from that(1) same have "healthy cl1" by (simp add: healthy_def)
      moreover from that(2) Enq b1 same
      have "length (buf (msgChan cl1)) + length (enqueued es) \<le> cap (msgChan cl1)" by simp
      ultimately show ?thesis using x b1 Enq by simp
    qed
    have "queue_run (e # es) cl = Inr cl'" using st r Enq by simp
    with s same q' x' show ?thesis by auto
  next
    case Turn
    show ?thesis
    proof (cases "buf (msgChan cl)")
      case Nil
      have st: "queue_step Turn cl = Inr cl"
        by (rule writer_step_idle [OF Nil Cons.prems(1)])
      from Cons.IH [OF Cons.prems] st Turn show ?thesis by simp
    next
      case (Cons m ms)
      from writer_step_message [OF Cons \<open>writer_idle cl\<close>] obtain cl1 where
        st: "queue_step Turn cl = Inr cl1" and b1: "buf (msgChan cl1) = ms"
        and same: "closed (msgChan cl1) = closed (msgChan cl)"
          "cap (msgChan cl1) = cap (msgChan cl)"
        and i1: "writer_idle cl1"
        and w: "sent (conn cl1) = sent (conn cl) @ m \<or> sent (conn cl1) = sent (conn cl)"
        and hl: "healthy cl \<longrightarrow> healthy cl1 \<and> sent (conn cl1) = sent (conn cl) @ m"
        by blast
      have o1: "\<not> closed (msgChan cl1)" using \<open>\<not> closed (msgChan cl)\<close> same by simp
      from Cons.IH [OF o1 i1] obtain cl' ws where
        r: "queue_run es cl1 = Inr cl'"
        and s: "sent (conn cl') = sent (conn cl1) @ concat ws"
        and q: "subseq (ws @ buf (msgChan cl')) (buf (msgChan cl1) @ enqueued es)"
        and x: "healthy cl1 \<and> length (buf (msgChan cl1)) + length (enqueued es) \<le> cap (msgChan cl1)
            \<longrightarrow> ws @ buf (msgChan cl') = buf (msgChan cl1) @ enqueued es"
        by blast
      have run: "queue_run (e # es) cl = Inr cl'" using st r Turn by simp
      have en: "enqueued (e # es) = enqueued es" using Turn by simp
      show ?thesis
      proof (cases "healthy cl")
        case True
        with hl have h1: "healthy cl1" and w1: "sent (conn cl1) = sent (conn cl) @ m" by simp_all
        have s': "sent (conn cl') = sent (conn cl) @ concat (m # ws)" using s w1 by simp
        have q': "subseq ((m # ws) @ buf (msgChan cl')) (buf (msgChan cl) @ enqueued (e # es))"
          using q b1 Cons en by simp
        have x': "(m # ws) @ buf (msgChan cl') = buf (msgChan cl) @ enqueued (e # es)"
          if "length (buf (msgChan cl)) + length (enqueued (e # es)) \<le> cap (msgChan cl)"
          using that x h1 b1 Cons en same by simp
        from run s' q' x' show ?thesis by blast
      next
        case False
        from w show ?thesis
        proof
          assume w1: "sent (conn cl1) = sent (conn cl) @ m"
          have s': "sent (conn cl') = sent (conn cl) @ concat (m # ws)" using s w1 by simp
          have q': "subseq ((m # ws) @ buf (msgChan cl')) (buf (msgChan cl) @ enqueued (e # es))"
            using q b1 Cons en by simp
          from run s' q' False show ?thesis by blast
        next
          assume w1: "sent (conn cl1) = sent (conn cl)"
          have s': "sent (conn cl') = sent (conn cl) @ concat ws" using s w1 by simp
          have q': "subseq (ws @ buf (msgChan cl')) (buf (msgChan cl) @ enqueued (e # es))"
            using q b1 Cons en subseq_drop_many [of _ _ "[m]"] by simp
          from run s' q' False show ?thesis by blast
        qed
      qed
    qed
  qed
qed

theorem writer_keeps_enqueue_order_witness:
  "\<not> closed (msgChan (example_client ''bob'' [])) \<and> writer_idle (example_client ''bob'' [])
   \<and> healthy (example_client ''bob'' [])
   \<and> (\<exists>cl' ws. queue_run [Enq ''m1'', Enq ''m2'', Turn, Enq ''m3'', Turn] (example_client ''bob'' [])
          = Inr cl'
        \<and> sent (conn cl') = concat ws \<and> ws @ buf (msgChan cl') = [''m1'', ''m2'', ''m3''])
   \<and> map_sum id (\<lambda>cl'. (sent (conn cl'), buf (msgChan cl')))
        (queue_run [Enq ''m1'', Enq ''m2'', Turn, Enq ''m3'', Turn] (example_client ''bob'' []))
      = Inr (''m1m2'', [''m3''])"
proof -
  have o: "\<not> closed (msgChan (example_client ''bob'' []))"
    and i: "writer_idle (example_client ''bob'' [])"
    and h: "healthy (example_client ''bob'' [])"
    by (simp_all add: example_client_def writer_idle_def healthy_def NewWriter_def example_conn_def)
  have e: "map_sum id (\<lambda>cl'. (sent (conn cl'), buf (msgChan cl')))
        (queue_run [Enq ''m1'', Enq ''m2'', Turn, Enq ''m3'', Turn] (example_client ''bob'' []))
      = Inr (''m1m2'', [''m3''])"
    by code_simp
  have f: "buf (msgChan (example_client ''bob'' [])) = []"
    "cap (msgChan (example_client ''bob'' [])) = 100"
    "sent (conn (example_client ''bob'' [])) = []"
    by (simp_all add: example_client_def example_conn_def)
  from writer_keeps_enqueue_order [OF o i, of "[Enq ''m1'', Enq ''m2'', Turn, Enq ''m3'', Turn]"]
  obtain cl' ws where
    r: "queue_run [Enq ''m1'', Enq ''m2'', Turn, Enq ''m3'', Turn] (example_client ''bob'' []) = Inr cl'"
    and s: "sent (conn cl') = sent (conn (example_client ''bob'' [])) @ concat ws"
    and x: "healthy (example_client ''bob'' [])
        \<and> length (buf (msgChan (example_client ''bob'' [])))
            + length (enqueued [Enq ''m1'', Enq ''m2'', Turn, Enq ''m3'', Turn])
          \<le> cap (msgChan (example_client ''bob'' []))
      \<longrightarrow> ws @ buf (msgChan cl')
          = buf (msgChan (example_client ''bob'' []))
            @ enqueued [Enq ''m1'', Enq ''m2'', Turn, Enq ''m3'', Turn]"
    by blast
  from x h have "ws @ buf (msgChan cl') = [''m1'', ''m2'', ''m3'']"
    by (simp add: f)
  moreover from s have "sent (conn cl') = concat ws"
    by (simp add: f)
  ultimately have "\<exists>cl' ws.
      queue_run [Enq ''m1'', Enq ''m2'', Turn, Enq ''m3'', Turn] (example_client ''bob'' []) = Inr cl'
      \<and> sent (conn cl') = concat ws \<and> ws @ buf (msgChan cl') = [''m1'', ''m2'', ''m3'']"
    using r by blast
  with o i h e show ?thesis by blast
qed

text \<open>
  C4, as the code has it. From the start of the server (empty registry, counter 0),
  along every feasible sequence of events in which the number of increments less the
  number of decrements stays below \<open>2 ^ 31\<close>: no step panics, and at every point the
  decrements are at most the increments, the counter (read as the \<open>int32\<close> it is)
  equals increments less decrements, and it is not negative.
\<close>

theorem online_count:
  assumes "newClients s = []" and "clientCounter s = 0" and "feasible es s"
    and "\<forall>n \<le> length es. int (connects (take n es)) - int (disconnects (take n es)) < 2 ^ 31"
  shows "\<forall>n \<le> length es. \<exists>s'. server_run (take n es) s = Inr s'
      \<and> disconnects (take n es) \<le> connects (take n es)
      \<and> sint (clientCounter s') = int (connects (take n es)) - int (disconnects (take n es))
      \<and> 0 \<le> sint (clientCounter s')"
proof (intro allI impI)
  fix n assume n: "n \<le> length es"
  have c: "counted s"
    using assms(1,2) by (simp add: counted_def registry_ok_def keys_def)
  from run_counted [OF c feasible_take [OF assms(3)], of n] obtain s' where
    r: "server_run (take n es) s = Inr s'" and c': "counted s'"
    and l: "length (newClients s') + disconnects (take n es) = connects (take n es)"
    by (auto simp: assms(1))
  from l have le: "disconnects (take n es) \<le> connects (take n es)" by linarith
  from l have d: "int (length (newClients s'))
      = int (connects (take n es)) - int (disconnects (take n es))" by linarith
  with assms(4) n have "int (length (newClients s')) < 2 ^ 31" by simp
  from sint_of_nat_small [OF this] c' have "sint (clientCounter s') = int (length (newClients s'))"
    by (simp add: counted_def)
  with r le d show "\<exists>s'. server_run (take n es) s = Inr s'
      \<and> disconnects (take n es) \<le> connects (take n es)
      \<and> sint (clientCounter s') = int (connects (take n es)) - int (disconnects (take n es))
      \<and> 0 \<le> sint (clientCounter s')"
    by simp
qed

theorem online_count_witness:
  "newClients just_started = [] \<and> clientCounter just_started = 0
   \<and> feasible busy_hour just_started
   \<and> connects busy_hour = 2 \<and> disconnects busy_hour = 1
   \<and> (\<exists>s'. server_run busy_hour just_started = Inr s' \<and> sint (clientCounter s') = 1)
   \<and> (\<exists>s'. server_run (take 2 busy_hour) just_started = Inr s' \<and> sint (clientCounter s') = 2)"
proof -
  have a: "newClients just_started = []" and b: "clientCounter just_started = 0"
    by (simp_all add: just_started_def)
  have f: "feasible busy_hour just_started" by code_simp
  have k: "connects busy_hour = 2" "disconnects busy_hour = 1" "length busy_hour = 5"
    "connects (take 2 busy_hour) = 2" "disconnects (take 2 busy_hour) = 0"
    by (simp_all add: busy_hour_def)
  have d: "\<forall>n \<le> length busy_hour.
      int (connects (take n busy_hour)) - int (disconnects (take n busy_hour)) < 2 ^ 31"
  proof (intro allI impI)
    fix n
    have "connects (take n busy_hour) \<le> length (take n busy_hour)" by (rule connects_le)
    also have "\<dots> \<le> 5" by (simp add: k)
    finally show "int (connects (take n busy_hour)) - int (disconnects (take n busy_hour)) < 2 ^ 31"
      by simp
  qed
  note oc = online_count [OF a b f d, rule_format]
  from oc [of 5] obtain s5 where
    r5: "server_run (take 5 busy_hour) just_started = Inr s5"
    and c5: "sint (clientCounter s5)
        = int (connects (take 5 busy_hour)) - int (disconnects (take 5 busy_hour))"
    by (auto simp: k)
  from oc [of 2] obtain s2 where
    r2: "server_run (take 2 busy_hour) just_started = Inr s2"
    and c2: "sint (clientCounter s2)
        = int (connects (take 2 busy_hour)) - int (disconnects (take 2 busy_hour))"
    by (auto simp: k)
  have t: "take 5 busy_hour = busy_hour" by (simp add: k)
  from r5 c5 have "\<exists>s'. server_run busy_hour just_started = Inr s' \<and> sint (clientCounter s') = 1"
    by (simp add: t k)
  moreover from r2 c2
  have "\<exists>s'. server_run (take 2 busy_hour) just_started = Inr s' \<and> sint (clientCounter s') = 2"
    by (simp add: k)
  ultimately show ?thesis using a b f k by simp
qed

text \<open>The claim as stated fails without the bound: \<open>clientCounter\<close> is an \<open>int32\<close>,
  and after \<open>2 ^ 31\<close> registrations with no removal it reads \<open>- 2 ^ 31\<close>.\<close>

theorem online_count_wraps_counterexample:
  "map_sum id (\<lambda>s'. sint (clientCounter s'))
     (server_run (replicate 2147483648 (Connect alice_two_segments)) just_started)
   = Inr (- 2147483648)"
proof -
  from run_connects [OF counted_just_started, of 2147483648 alice_two_segments] obtain s' where
    r: "server_run (replicate 2147483648 (Connect alice_two_segments)) just_started = Inr s'"
    and k: "clientCounter s' = clientCounter just_started + of_nat 2147483648"
    by blast
  have "clientCounter just_started = 0" by (simp add: just_started_def)
  with k have "sint (clientCounter s') = - 2147483648" by simp
  then show ?thesis by (simp add: r)
qed

end
